theory Spec2Isabelle
  imports Main
begin

section \<open>Data model\<close>

text \<open>
  A \<open>Point\<close> of the solver: its position, its value (0 when unset), the values that
  failed at it, the cached set of available values (the field \<open>_available\<close> of the
  source) and the one-character tag that says where the value comes from.
  Rows and columns are built from \<open>range(9*9)\<close> and never reassigned, so they are
  natural numbers; values are Python integers. A Python set is a finite set of integers;
  \<open>len\<close> is \<open>card\<close>.
\<close>

record point =
  row :: nat
  col :: nat
  val :: int
  failed :: "int set"
  available_cache :: "int set"
  source :: string

definition Point :: "nat \<Rightarrow> nat \<Rightarrow> point" where
  "Point r c = \<lparr>row = r, col = c, val = 0, failed = {}, available_cache = {}, source = '' ''\<rparr>"

definition bigrow :: "point \<Rightarrow> nat" where
  "bigrow p = row p div 3"

definition bigcol :: "point \<Rightarrow> nat" where
  "bigcol p = col p div 3"

record sudoku =
  startpos :: string
  name :: string
  points :: "point list"

text \<open>
  The class variables of \<open>Sudoku\<close> are shared by every board of a run, the copies
  included; \<open>stdout\<close> lists the boards that \<open>display\<close> has printed.
\<close>

record globals =
  thinks :: int
  guesses :: int
  deductions :: int
  fails :: int
  maxlevel :: int
  stdout :: "sudoku list"

datatype error = IndexError | StopIteration

section \<open>Construction\<close>

text \<open>
  \<open>f"{startpos:81}"\<close>: left-aligned in a field of at least 81 characters. A character of
  the model stands for one character of the Python string.
\<close>

definition pad81 :: "string \<Rightarrow> string" where
  "pad81 sp = sp @ replicate (81 - length sp) (CHR '' '')"

text \<open>\<open>int(c) if c in "123456789" else 0\<close>, for a string \<open>c\<close> of one character.\<close>

definition cell_value :: "char \<Rightarrow> int" where
  "cell_value c = (if c \<in> set ''123456789'' then int (of_char c) - 48 else 0)"

text \<open>The constructor with its \<open>__post_init__\<close>.\<close>

definition Sudoku :: "string \<Rightarrow> string \<Rightarrow> sudoku" where
  "Sudoku sp nm =
     (let pts = map (\<lambda>i. Point (i div 9) (i mod 9)) [0..<9 * 9]
      in \<lparr>startpos = sp, name = nm,
          points =
            (if sp \<noteq> []
             then map (\<lambda>p. p\<lparr>val := cell_value (pad81 sp ! (col p + 9 * row p))\<rparr>) pts
             else pts[4 + 9 * 4 := (pts ! (4 + 9 * 4))\<lparr>val := 1\<rparr>])\<rparr>)"

section \<open>Queries on a board\<close>

text \<open>
  A reference to a cell of a board is its index in \<open>points\<close>. The three queries below
  read the values only.
\<close>

definition onrow :: "sudoku \<Rightarrow> point \<Rightarrow> int set" where
  "onrow s p = set (map val (filter (\<lambda>q. val q \<noteq> 0 \<and> row q = row p) (points s)))"

definition oncol :: "sudoku \<Rightarrow> point \<Rightarrow> int set" where
  "oncol s p = set (map val (filter (\<lambda>q. val q \<noteq> 0 \<and> col q = col p) (points s)))"

definition in3x3 :: "sudoku \<Rightarrow> point \<Rightarrow> int set" where
  "in3x3 s p =
     set (map val (filter (\<lambda>q. val q \<noteq> 0 \<and> bigrow q = bigrow p \<and> bigcol q = bigcol p) (points s)))"

definition used :: "sudoku \<Rightarrow> point \<Rightarrow> int set" where
  "used s p = oncol s p \<union> onrow s p \<union> in3x3 s p \<union> failed p"

text \<open>
  \<open>available\<close> fills the cache of an unset cell whose cache is empty and returns the
  cache; the board it returns is the board with that cache written.
\<close>

definition available :: "sudoku \<Rightarrow> nat \<Rightarrow> int set \<times> sudoku" where
  "available s i =
     (let p = points s ! i in
      if val p = 0 \<and> available_cache p = {}
      then (let a = {1, 2, 3, 4, 5, 6, 7, 8, 9} - used s p
            in (a, s\<lparr>points := (points s)[i := p\<lparr>available_cache := a\<rparr>]\<rparr>))
      else (available_cache p, s))"

text \<open>
  The loop of \<open>deduce\<close> over the cells \<open>js\<close>; \<open>point != p\<close> is the equality of
  dataclasses, which compares every field.
\<close>

fun deduce_loop :: "sudoku \<Rightarrow> nat \<Rightarrow> nat list \<Rightarrow> int set \<Rightarrow> int set \<Rightarrow> int set \<times> int set \<times> sudoku" where
  "deduce_loop s i [] deducerow deducecol = (deducerow, deducecol, s)"
| "deduce_loop s i (j # js) deducerow deducecol =
     (if points s ! i \<noteq> points s ! j \<and> val (points s ! j) = 0
      then if row (points s ! i) = row (points s ! j)
           then (case available s j of (a, s1) \<Rightarrow> deduce_loop s1 i js (deducerow \<union> a) deducecol)
           else if col (points s ! i) = col (points s ! j)
           then (case available s j of (a, s1) \<Rightarrow> deduce_loop s1 i js deducerow (deducecol \<union> a))
           else deduce_loop s i js deducerow deducecol
      else deduce_loop s i js deducerow deducecol)"

definition deduce :: "sudoku \<Rightarrow> nat \<Rightarrow> int set \<times> sudoku" where
  "deduce s i =
     (case deduce_loop s i [0..<length (points s)] {} {} of (deducerow, deducecol, s1) \<Rightarrow>
      case available s1 i of (a1, s2) \<Rightarrow>
        if card (a1 - deducerow) = 1 then (a1 - deducerow, s2)
        else (case available s2 i of (a2, s3) \<Rightarrow>
                if card (a2 - deducecol) = 1 then (a2 - deducecol, s3) else ({}, s3)))"

fun deduced_loop :: "sudoku \<Rightarrow> nat list \<Rightarrow> nat list \<times> sudoku" where
  "deduced_loop s [] = ([], s)"
| "deduced_loop s (j # js) =
     (if val (points s ! j) = 0
      then (case available s j of (a, s1) \<Rightarrow>
              if card a > 1
              then (case deduce s1 j of (d, s2) \<Rightarrow>
                      case deduced_loop s2 js of (ans, s3) \<Rightarrow> (if d \<noteq> {} then j # ans else ans, s3))
              else deduced_loop s1 js)
      else deduced_loop s js)"

definition deduced :: "sudoku \<Rightarrow> nat list \<times> sudoku" where
  "deduced s = deduced_loop s [0..<length (points s)]"

text \<open>
  \<open>sorted\<close> computes the key of every element first, in order, and then sorts the
  elements by their keys, keeping the order of equal keys.
\<close>

fun available_each :: "sudoku \<Rightarrow> nat list \<Rightarrow> int set list \<times> sudoku" where
  "available_each s [] = ([], s)"
| "available_each s (i # is) =
     (case available s i of (a, s1) \<Rightarrow>
      case available_each s1 is of (as, s2) \<Rightarrow> (a # as, s2))"

definition todo :: "sudoku \<Rightarrow> nat list \<times> sudoku" where
  "todo s =
     (let ans = filter (\<lambda>i. val (points s ! i) = 0) [0..<length (points s)]
      in case available_each s ans of (avs, s1) \<Rightarrow>
           (map snd (sort_key fst (zip (map card avs) ans)), s1))"

section \<open>Mutations of a board\<close>

definition clearcache :: "sudoku \<Rightarrow> sudoku" where
  "clearcache s = s\<lparr>points := map (\<lambda>p. p\<lparr>available_cache := {}\<rparr>) (points s)\<rparr>"

definition setpoint :: "sudoku \<Rightarrow> nat \<Rightarrow> int \<Rightarrow> string \<Rightarrow> sudoku" where
  "setpoint s i v src =
     clearcache (s\<lparr>points := (points s)[i := (points s ! i)\<lparr>val := v, source := src\<rparr>]\<rparr>)"

text \<open>The method \<open>failed\<close> of \<open>Sudoku\<close>; the field of \<open>Point\<close> has the name.\<close>

definition record_failed :: "globals \<Rightarrow> sudoku \<Rightarrow> nat \<Rightarrow> int \<Rightarrow> globals \<times> sudoku" where
  "record_failed g s i v =
     (g\<lparr>fails := fails g + 1\<rparr>,
      clearcache (s\<lparr>points := (points s)[i := (points s ! i)\<lparr>failed := insert v (failed (points s ! i))\<rparr>]\<rparr>))"

text \<open>A deep copy of a board is a board with the same contents.\<close>

definition deepcopy :: "sudoku \<Rightarrow> sudoku" where
  "deepcopy s = s"

section \<open>The solver\<close>

text \<open>
  \<open>next(iter(S))\<close> raises on the empty set and otherwise returns a member of \<open>S\<close>;
  which one is the runtime's choice and not the program's. The parameter \<open>ord\<close>
  stands for the iteration order: it proposes the first element of every set, and
  the proposal counts when it is a member.
\<close>

definition next_iter :: "(int set \<Rightarrow> int) \<Rightarrow> int set \<Rightarrow> error + int" where
  "next_iter ord S =
     (if S = {} then Inl StopIteration else Inr (if ord S \<in> S then ord S else Min S))"

text \<open>\<open>s.todo()[0]\<close>\<close>

definition first_todo :: "sudoku \<Rightarrow> error + (nat \<times> sudoku)" where
  "first_todo s =
     (case todo s of (td, s1) \<Rightarrow>
      case td of [] \<Rightarrow> Inl IndexError | t # _ \<Rightarrow> Inr (t, s1))"

text \<open>The condition of the first loop of \<open>solve\<close> (known values).\<close>

definition known_cond :: "bool \<Rightarrow> sudoku \<Rightarrow> error + (bool \<times> sudoku)" where
  "known_cond ded s =
     (case todo s of (td, s1) \<Rightarrow>
      if td = [] then Inr (False, s1)
      else case first_todo s1 of Inl e \<Rightarrow> Inl e | Inr (t, s2) \<Rightarrow>
        (case available s2 t of (a, s3) \<Rightarrow>
           if card a = 1 then Inr (True, s3)
           else if ded then (case deduced s3 of (dd, s4) \<Rightarrow> Inr (dd \<noteq> [], s4))
           else Inr (False, s3)))"

text \<open>The body of the first loop.\<close>

definition known_step :: "(int set \<Rightarrow> int) \<Rightarrow> globals \<Rightarrow> sudoku \<Rightarrow> error + (globals \<times> sudoku)" where
  "known_step ord g s =
     (case first_todo s of Inl e \<Rightarrow> Inl e | Inr (t0, s1) \<Rightarrow>
      case available s1 t0 of (a0, s2) \<Rightarrow>
        if card a0 = 1
        then (case first_todo s2 of Inl e \<Rightarrow> Inl e | Inr (t, s3) \<Rightarrow>
              case available s3 t of (av, s4) \<Rightarrow>
              case next_iter ord av of Inl e \<Rightarrow> Inl e | Inr v \<Rightarrow>
                Inr (g\<lparr>thinks := thinks g + 1\<rparr>, setpoint s4 t v ''=''))
        else (case deduced s2 of (dd, s3) \<Rightarrow>
              case dd of [] \<Rightarrow> Inl IndexError | t # _ \<Rightarrow>
              case deduce s3 t of (av, s4) \<Rightarrow>
              case next_iter ord av of Inl e \<Rightarrow> Inl e | Inr v \<Rightarrow>
                Inr (g\<lparr>deductions := deductions g + 1\<rparr>, setpoint s4 t v ''*'')))"

function known_values :: "(int set \<Rightarrow> int) \<Rightarrow> bool \<Rightarrow> globals \<Rightarrow> sudoku \<Rightarrow> error + (globals \<times> sudoku)" where
  "known_values ord ded g s =
     (case known_cond ded s of Inl e \<Rightarrow> Inl e | Inr (c, s1) \<Rightarrow>
      if c
      then (case known_step ord g s1 of Inl e \<Rightarrow> Inl e | Inr (g1, s2) \<Rightarrow> known_values ord ded g1 s2)
      else Inr (g, s1))"
  by pat_completeness auto

text \<open>\<open>'abcedfghijk'[n]\<close>\<close>

definition guess_tag :: "nat \<Rightarrow> error + string" where
  "guess_tag n = (if n < length ''abcedfghijk'' then Inr [''abcedfghijk'' ! n] else Inl IndexError)"

text \<open>
  The guess: the copy of the board, with the value \<open>use\<close> at the first cell of its own
  \<open>todo\<close>.
\<close>

definition guess :: "globals \<Rightarrow> sudoku \<Rightarrow> int \<Rightarrow> error + (globals \<times> sudoku)" where
  "guess g s use =
     (case first_todo (deepcopy s) of Inl e \<Rightarrow> Inl e | Inr (nexttodo, nextlevel) \<Rightarrow>
      case guess_tag (card (failed (points nextlevel ! nexttodo))) of Inl e \<Rightarrow> Inl e | Inr tag \<Rightarrow>
        Inr (g\<lparr>guesses := guesses g + 1\<rparr>, setpoint nextlevel nexttodo use tag))"

text \<open>The entry of \<open>solve\<close>: the level is recorded and the first loop runs.\<close>

definition solve_entry :: "(int set \<Rightarrow> int) \<Rightarrow> bool \<Rightarrow> globals \<Rightarrow> sudoku \<Rightarrow> int \<Rightarrow> error + (globals \<times> sudoku)" where
  "solve_entry ord ded g s level = known_values ord ded (g\<lparr>maxlevel := max (maxlevel g) level\<rparr>) s"

text \<open>
  The second loop of \<open>solve\<close> (guessing). Its recursive call of \<open>solve\<close> on the copy is
  \<open>solve_entry\<close> followed by the loop. The result is the returned boolean, the class
  variables and the board as the call leaves it. The time stamps and the lines of text
  that \<open>solve\<close> prints have no part in its result and are left out; what \<open>display\<close>
  prints is recorded as the board it is called on.
\<close>

function search :: "(int set \<Rightarrow> int) \<Rightarrow> bool \<Rightarrow> globals \<Rightarrow> sudoku \<Rightarrow> int \<Rightarrow> error + (bool \<times> globals \<times> sudoku)" where
  "search ord ded g s level =
     (case todo s of (td, s1) \<Rightarrow>
      if td = [] then Inr (True, g\<lparr>stdout := stdout g @ [s1]\<rparr>, s1)
      else case first_todo s1 of Inl e \<Rightarrow> Inl e | Inr (t, s2) \<Rightarrow>
        (case available s2 t of (av, s3) \<Rightarrow>
           if av \<noteq> {}
           then (case next_iter ord av of Inl e \<Rightarrow> Inl e | Inr use \<Rightarrow>
                 case guess g s3 use of Inl e \<Rightarrow> Inl e | Inr (g1, nextlevel) \<Rightarrow>
                 case solve_entry ord ded g1 nextlevel (level + 1) of Inl e \<Rightarrow> Inl e | Inr (g2, n2) \<Rightarrow>
                 case search ord ded g2 n2 (level + 1) of Inl e \<Rightarrow> Inl e | Inr (ok, g3, n3) \<Rightarrow>
                   if ok then Inr (True, g3, s3)
                   else (case record_failed g3 s3 t use of (g4, s4) \<Rightarrow> search ord ded g4 s4 level))
           else Inr (False, g, s3)))"
  by pat_completeness auto

definition solve :: "(int set \<Rightarrow> int) \<Rightarrow> bool \<Rightarrow> globals \<Rightarrow> sudoku \<Rightarrow> int \<Rightarrow> error + (bool \<times> globals \<times> sudoku)" where
  "solve ord ded g s level =
     (case solve_entry ord ded g s level of Inl e \<Rightarrow> Inl e | Inr (g1, s1) \<Rightarrow> search ord ded g1 s1 level)"

section \<open>Vocabulary of the properties\<close>

text \<open>What \<open>available\<close> returns for a cell, and what a computation from scratch gives.\<close>

definition avl :: "sudoku \<Rightarrow> nat \<Rightarrow> int set" where
  "avl s i = fst (available s i)"

definition fresh :: "sudoku \<Rightarrow> point \<Rightarrow> int set" where
  "fresh s p = {1, 2, 3, 4, 5, 6, 7, 8, 9} - used s p"

text \<open>
  Two boards are similar when they differ in their caches only and \<open>available\<close>
  returns the same set for every cell.
\<close>

definition sim :: "sudoku \<Rightarrow> sudoku \<Rightarrow> bool" where
  "sim s s' \<longleftrightarrow> clearcache s' = clearcache s \<and> (\<forall>i<length (points s). avl s' i = avl s i)"

text \<open>The unset cells in board order, and what \<open>todo\<close> returns, read without the caches.\<close>

definition unset_cells :: "sudoku \<Rightarrow> nat list" where
  "unset_cells s = filter (\<lambda>i. val (points s ! i) = 0) [0..<length (points s)]"

definition todo_of :: "sudoku \<Rightarrow> nat list" where
  "todo_of s = sort_key (\<lambda>i. card (avl s i)) (unset_cells s)"

text \<open>
  No two cells of the board are at the same row and column; then \<open>point != p\<close> holds
  exactly for two different cells.
\<close>

definition pos_distinct :: "sudoku \<Rightarrow> bool" where
  "pos_distinct s = distinct (map (\<lambda>p. (row p, col p)) (points s))"

text \<open>The accumulators and the results of \<open>deduce\<close> and \<open>deduced\<close>, read without the caches.\<close>

definition deducerow_of :: "sudoku \<Rightarrow> nat \<Rightarrow> int set" where
  "deducerow_of s i =
     \<Union> (set (map (avl s) (filter (\<lambda>j. j \<noteq> i \<and> val (points s ! j) = 0 \<and>
                                        row (points s ! j) = row (points s ! i)) [0..<length (points s)])))"

definition deducecol_of :: "sudoku \<Rightarrow> nat \<Rightarrow> int set" where
  "deducecol_of s i =
     \<Union> (set (map (avl s) (filter (\<lambda>j. j \<noteq> i \<and> val (points s ! j) = 0 \<and>
                                        col (points s ! j) = col (points s ! i)) [0..<length (points s)])))"

definition deduce_of :: "sudoku \<Rightarrow> nat \<Rightarrow> int set" where
  "deduce_of s i =
     (if card (avl s i - deducerow_of s i) = 1 then avl s i - deducerow_of s i
      else if card (avl s i - deducecol_of s i) = 1 then avl s i - deducecol_of s i
      else {})"

definition deduced_of :: "sudoku \<Rightarrow> nat list" where
  "deduced_of s =
     filter (\<lambda>j. val (points s ! j) = 0 \<and> card (avl s j) > 1 \<and> deduce_of s j \<noteq> {})
       [0..<length (points s)]"

text \<open>Every cache is empty or holds what a computation from the values gives (and the cell is unset).\<close>

definition cache_ok :: "sudoku \<Rightarrow> bool" where
  "cache_ok s = list_all (\<lambda>p. available_cache p = {} \<or> (val p = 0 \<and> available_cache p = fresh s p)) (points s)"

text \<open>
  The work left on a board, which every iteration of both loops of \<open>solve\<close> reduces: for
  each unset cell, the values from 1 to 9 that have not failed at it, and one more.
\<close>

definition weight :: "point \<Rightarrow> nat" where
  "weight p = (if val p = 0 then 10 - card (failed p \<inter> {1..9}) else 0)"

definition work_left :: "sudoku \<Rightarrow> nat" where
  "work_left s = sum_list (map weight (points s))"

text \<open>
  A board of the solver: the 81 cells of the constructor in row-major order, coherent
  caches, values from 0 to 9 and failed values from 1 to 9. Every constructed board is one,
  and \<open>solve\<close> keeps it so.
\<close>

definition grid :: "sudoku \<Rightarrow> bool" where
  "grid s \<longleftrightarrow> map (\<lambda>p. (row p, col p)) (points s) = map (\<lambda>i. (i div 9, i mod 9)) [0..<81]"

definition values_ok :: "sudoku \<Rightarrow> bool" where
  "values_ok s = list_all (\<lambda>p. 0 \<le> val p \<and> val p \<le> 9) (points s)"

definition failed_ok :: "sudoku \<Rightarrow> bool" where
  "failed_ok s = list_all (\<lambda>p. failed p \<subseteq> {1..9}) (points s)"

definition board_ok :: "sudoku \<Rightarrow> bool" where
  "board_ok s \<longleftrightarrow> grid s \<and> cache_ok s \<and> values_ok s \<and> failed_ok s"

text \<open>
  Two cells see each other when they share a row, a column or a block. A board is
  consistent when no two different cells that see each other hold the same value other
  than 0.
\<close>

definition peer :: "point \<Rightarrow> point \<Rightarrow> bool" where
  "peer p q \<longleftrightarrow> row p = row q \<or> col p = col q \<or> (bigrow p = bigrow q \<and> bigcol p = bigcol q)"

definition consistent :: "sudoku \<Rightarrow> bool" where
  "consistent s =
     list_all (\<lambda>p. list_all (\<lambda>q. (row p = row q \<and> col p = col q) \<or> val p = 0 \<or> \<not> peer p q \<or> val p \<noteq> val q)
                 (points s)) (points s)"

text \<open>
  The element that \<open>next_iter\<close> returns for a non-empty set, and the board as an iteration
  of the second loop leaves it after its queries.
\<close>

definition chosen :: "(int set \<Rightarrow> int) \<Rightarrow> int set \<Rightarrow> int" where
  "chosen ord S = (if ord S \<in> S then ord S else Min S)"

definition looked :: "sudoku \<Rightarrow> sudoku" where
  "looked s = snd (available (snd (todo (snd (todo s)))) (hd (todo_of s)))"

text \<open>The number of unset cells, and the condition of the first loop read without the caches.\<close>

definition unset_count :: "sudoku \<Rightarrow> nat" where
  "unset_count s = length (filter (\<lambda>p. val p = 0) (points s))"

definition known_test :: "bool \<Rightarrow> sudoku \<Rightarrow> bool" where
  "known_test ded s \<longleftrightarrow>
     todo_of s \<noteq> [] \<and> (card (avl s (hd (todo_of s))) = 1 \<or> (ded \<and> deduced_of s \<noteq> []))"

text \<open>
  What a call of \<open>solve\<close> or of its second loop at \<open>level\<close> on the board \<open>s\<close> leaves: the
  maximal level within the level of the call plus the unset cells, and either one more
  board displayed, which is a full board of the solver (consistent if \<open>s\<close> was), or
  nothing displayed.
\<close>

definition outcome_ok :: "globals \<Rightarrow> sudoku \<Rightarrow> int \<Rightarrow> bool \<times> globals \<times> sudoku \<Rightarrow> bool" where
  "outcome_ok g s level r \<longleftrightarrow>
     (case r of (ok, g', s') \<Rightarrow>
        maxlevel g' \<le> max (maxlevel g) (level + int (unset_count s)) \<and>
        (if ok
         then \<exists>b. stdout g' = stdout g @ [b] \<and> board_ok b \<and> unset_count b = 0 \<and>
                  (consistent s \<longrightarrow> consistent b)
         else stdout g' = stdout g))"

text \<open>
  A solved board: 81 cells, every value from 1 to 9, and every row, every column and every
  block holds each of the values from 1 to 9 in exactly one cell.
\<close>

definition solved :: "sudoku \<Rightarrow> bool" where
  "solved b \<longleftrightarrow>
     length (points b) = 81 \<and>
     list_all (\<lambda>p. 1 \<le> val p \<and> val p \<le> 9) (points b) \<and>
     (\<forall>r\<in>{0..<9}. \<forall>v\<in>{1..9}. length (filter (\<lambda>p. row p = r \<and> val p = v) (points b)) = 1) \<and>
     (\<forall>c\<in>{0..<9}. \<forall>v\<in>{1..9}. length (filter (\<lambda>p. col p = c \<and> val p = v) (points b)) = 1) \<and>
     (\<forall>br\<in>{0..<3}. \<forall>bc\<in>{0..<3}. \<forall>v\<in>{1..9}.
        length (filter (\<lambda>p. bigrow p = br \<and> bigcol p = bc \<and> val p = v) (points b)) = 1)"

text \<open>
  One operation of the board's interface: a query, which may fill caches, a mutation,
  or a deep copy.
\<close>

inductive board_op :: "sudoku \<Rightarrow> sudoku \<Rightarrow> bool" where
  op_available: "i < length (points s) \<Longrightarrow> board_op s (snd (available s i))"
| op_deduce: "i < length (points s) \<Longrightarrow> board_op s (snd (deduce s i))"
| op_deduced: "board_op s (snd (deduced s))"
| op_todo: "board_op s (snd (todo s))"
| op_setpoint: "i < length (points s) \<Longrightarrow> board_op s (setpoint s i v src)"
| op_failed: "i < length (points s) \<Longrightarrow> board_op s (snd (record_failed g s i v))"
| op_deepcopy: "board_op s (deepcopy s)"

text \<open>The boards a program can hold: built by the constructor, then operated on.\<close>

inductive reachable :: "sudoku \<Rightarrow> bool" where
  reach_new: "reachable (Sudoku sp nm)"
| reach_op: "reachable s \<Longrightarrow> board_op s s' \<Longrightarrow> reachable s'"

text \<open>
  An iteration of the second loop of \<open>solve\<close> whose guess fails: the recursive call
  returns \<open>False\<close>, the failure is recorded, and the loop goes on with the class
  variables and the board that \<open>retry\<close> returns. An iteration that ends the call (no
  unset cell, no available value, a successful guess or an exception) has no such state.
  \<open>retries\<close> is the state of the loop after \<open>n\<close> failed guesses in a row.
\<close>

definition retry :: "(int set \<Rightarrow> int) \<Rightarrow> bool \<Rightarrow> int \<Rightarrow> globals \<Rightarrow> sudoku \<Rightarrow> (globals \<times> sudoku) option" where
  "retry ord ded level g s =
     (case todo s of (td, s1) \<Rightarrow>
      if td = [] then None
      else case first_todo s1 of Inl e \<Rightarrow> None | Inr (t, s2) \<Rightarrow>
        (case available s2 t of (av, s3) \<Rightarrow>
           if av \<noteq> {}
           then (case next_iter ord av of Inl e \<Rightarrow> None | Inr use \<Rightarrow>
                 case guess g s3 use of Inl e \<Rightarrow> None | Inr (g1, nextlevel) \<Rightarrow>
                 case solve ord ded g1 nextlevel (level + 1) of Inl e \<Rightarrow> None | Inr (ok, g3, n3) \<Rightarrow>
                   if ok then None else Some (record_failed g3 s3 t use))
           else None))"

primrec retries :: "(int set \<Rightarrow> int) \<Rightarrow> bool \<Rightarrow> int \<Rightarrow> nat \<Rightarrow> globals \<Rightarrow> sudoku \<Rightarrow> (globals \<times> sudoku) option" where
  "retries ord ded level 0 g s = Some (g, s)"
| "retries ord ded level (Suc n) g s =
     (case retries ord ded level n g s of None \<Rightarrow> None | Some (gk, sk) \<Rightarrow> retry ord ded level gk sk)"

text \<open>Boards and class variables for the examples.\<close>

definition G0 :: globals where
  "G0 = \<lparr>thinks = 0, guesses = 0, deductions = 0, fails = 0, maxlevel = 0, stdout = []\<rparr>"

definition one_blank :: sudoku where
  "one_blank =
     Sudoku ''.28465379374219856956837142765198423249673581813542967592386714487921635631754298'' ''one blank''"

definition all_ones :: sudoku where
  "all_ones = Sudoku (replicate 81 (CHR ''1'')) ''ones''"

definition dead_end :: sudoku where
  "dead_end =
     Sudoku ''.184653793742198569568371427651984232496735818.3542967592386714487921635631754298'' ''dead end''"

definition stuck :: sudoku where
  "stuck =
     Sudoku ''128465379374219856986837142765198423289673581813542967.9238671...792163.631754298'' ''stuck''"

definition rectangle :: sudoku where
  "rectangle =
     Sudoku ''128465379374219856956837142765198423249673581813542967.9238671..8792163.631754298'' ''rectangle''"

definition eleven :: sudoku where
  "eleven = fold (\<lambda>v b. snd (record_failed G0 b 54 v)) [10, 11, 12, 13, 14, 15, 16, 17, 18, 19, 20] rectangle"

definition tried_board :: sudoku where
  "tried_board = snd (record_failed G0 (setpoint (snd (available (Sudoku ''53'' ''w'') 2)) 2 4 ''='') 3 7)"

definition failed_five :: sudoku where
  "failed_five = snd (record_failed G0 (Sudoku [] ''w'') 0 5)"

definition failed_five_later :: sudoku where
  "failed_five_later = snd (record_failed G0 (setpoint (deepcopy failed_five) 1 7 ''a'') 0 2)"

definition three_blanks :: sudoku where
  "three_blanks =
     Sudoku ''..8465379374219856956837142765198423.49673581813542967592386714487921635631754298'' ''three blanks''"

definition three_failed :: sudoku where
  "three_failed =
     snd (record_failed G0 (snd (record_failed G0 (snd (record_failed G0 (Sudoku [] ''w'') 0 1)) 0 2)) 0 3)"

section \<open>The cache is transparent\<close>

lemma clearcache_points: "points (clearcache s) = map (\<lambda>p. p\<lparr>available_cache := {}\<rparr>) (points s)"
  by (simp add: clearcache_def)

lemma clearcache_eq_length:
  assumes "clearcache s' = clearcache s"
  shows "length (points s') = length (points s)"
proof -
  have "length (points (clearcache s')) = length (points (clearcache s))" using assms by simp
  then show ?thesis by (simp add: clearcache_points)
qed

lemma clearcache_eq_nth:
  assumes "clearcache s' = clearcache s" and "i < length (points s)"
  shows "(points s' ! i)\<lparr>available_cache := {}\<rparr> = (points s ! i)\<lparr>available_cache := {}\<rparr>"
proof -
  have l: "length (points s') = length (points s)" by (rule clearcache_eq_length[OF assms(1)])
  have "points (clearcache s') ! i = points (clearcache s) ! i" using assms by simp
  then show ?thesis using assms(2) l by (simp add: clearcache_points)
qed

lemma clearcache_eq_fields:
  assumes "clearcache s' = clearcache s" and "i < length (points s)"
  shows "row (points s' ! i) = row (points s ! i)"
    and "col (points s' ! i) = col (points s ! i)"
    and "val (points s' ! i) = val (points s ! i)"
    and "failed (points s' ! i) = failed (points s ! i)"
    and "source (points s' ! i) = source (points s ! i)"
proof -
  let ?p = "points s' ! i" and ?q = "points s ! i"
  have e: "?p\<lparr>available_cache := {}\<rparr> = ?q\<lparr>available_cache := {}\<rparr>"
    by (rule clearcache_eq_nth[OF assms])
  have "row (?p\<lparr>available_cache := {}\<rparr>) = row (?q\<lparr>available_cache := {}\<rparr>)" using e by simp
  then show "row ?p = row ?q" by simp
  have "col (?p\<lparr>available_cache := {}\<rparr>) = col (?q\<lparr>available_cache := {}\<rparr>)" using e by simp
  then show "col ?p = col ?q" by simp
  have "val (?p\<lparr>available_cache := {}\<rparr>) = val (?q\<lparr>available_cache := {}\<rparr>)" using e by simp
  then show "val ?p = val ?q" by simp
  have "failed (?p\<lparr>available_cache := {}\<rparr>) = failed (?q\<lparr>available_cache := {}\<rparr>)" using e by simp
  then show "failed ?p = failed ?q" by simp
  have "source (?p\<lparr>available_cache := {}\<rparr>) = source (?q\<lparr>available_cache := {}\<rparr>)" using e by simp
  then show "source ?p = source ?q" by simp
qed

lemma onrow_clearcache: "onrow (clearcache s) p = onrow s p"
  by (simp add: onrow_def clearcache_points filter_map comp_def)

lemma oncol_clearcache: "oncol (clearcache s) p = oncol s p"
  by (simp add: oncol_def clearcache_points filter_map comp_def)

lemma in3x3_clearcache: "in3x3 (clearcache s) p = in3x3 s p"
  by (simp add: in3x3_def clearcache_points filter_map comp_def bigrow_def bigcol_def)

lemma onrow_cong: "row p = row q \<Longrightarrow> onrow s p = onrow s q"
  by (simp add: onrow_def)

lemma oncol_cong: "col p = col q \<Longrightarrow> oncol s p = oncol s q"
  by (simp add: oncol_def)

lemma in3x3_cong: "row p = row q \<Longrightarrow> col p = col q \<Longrightarrow> in3x3 s p = in3x3 s q"
  by (simp add: in3x3_def bigrow_def bigcol_def)

lemma used_clearcache_eq:
  assumes "clearcache s' = clearcache s" and "i < length (points s)"
  shows "used s' (points s' ! i) = used s (points s ! i)"
proof -
  note f = clearcache_eq_fields[OF assms]
  have "onrow s' (points s' ! i) = onrow (clearcache s') (points s ! i)"
    unfolding onrow_clearcache by (rule onrow_cong) (rule f)
  moreover have "oncol s' (points s' ! i) = oncol (clearcache s') (points s ! i)"
    unfolding oncol_clearcache by (rule oncol_cong) (rule f)
  moreover have "in3x3 s' (points s' ! i) = in3x3 (clearcache s') (points s ! i)"
    unfolding in3x3_clearcache by (rule in3x3_cong) (rule f)+
  ultimately show ?thesis
    unfolding used_def assms(1) onrow_clearcache oncol_clearcache in3x3_clearcache
    using f(4) by simp
qed

lemma used_cc: 
  assumes "clearcache s' = clearcache s"
  shows "used s' q = used s q"
proof -
  have "onrow s' q = onrow s q" using onrow_clearcache[of s' q] onrow_clearcache[of s q] assms by simp
  moreover have "oncol s' q = oncol s q" using oncol_clearcache[of s' q] oncol_clearcache[of s q] assms by simp
  moreover have "in3x3 s' q = in3x3 s q" using in3x3_clearcache[of s' q] in3x3_clearcache[of s q] assms by simp
  ultimately show ?thesis by (simp add: used_def)
qed

lemma fresh_cc: "clearcache s' = clearcache s \<Longrightarrow> fresh s' q = fresh s q"
  using used_cc[of s' s q] by (simp add: fresh_def)

lemma fresh_cache_irrelevant: "fresh s (q\<lparr>available_cache := a\<rparr>) = fresh s q"
  by (simp add: fresh_def used_def onrow_def oncol_def in3x3_def bigrow_def bigcol_def)

lemma avl_unfold:
  "avl s i = (if val (points s ! i) = 0 \<and> available_cache (points s ! i) = {}
              then fresh s (points s ! i)
              else available_cache (points s ! i))"
  by (simp add: avl_def available_def Let_def fresh_def)

lemma available_fst: "fst (available s i) = avl s i"
  by (simp add: avl_def)

lemma available_snd_unfold:
  "snd (available s i) =
     (if val (points s ! i) = 0 \<and> available_cache (points s ! i) = {}
      then s\<lparr>points := (points s)[i := (points s ! i)\<lparr>available_cache := fresh s (points s ! i)\<rparr>]\<rparr>
      else s)"
  by (simp add: available_def Let_def fresh_def)

lemma clearcache_cache_update:
  assumes "i < length (points s)"
  shows "clearcache (s\<lparr>points := (points s)[i := (points s ! i)\<lparr>available_cache := a\<rparr>]\<rparr>) = clearcache s"
proof -
  have "map (\<lambda>p. p\<lparr>available_cache := {}\<rparr>) ((points s)[i := (points s ! i)\<lparr>available_cache := a\<rparr>])
        = map (\<lambda>p. p\<lparr>available_cache := {}\<rparr>) (points s)"
    using assms by (simp add: list_eq_iff_nth_eq nth_list_update)
  then show ?thesis by (simp add: clearcache_def)
qed

lemma sim_refl: "sim s s"
  by (simp add: sim_def)

lemma sim_cc: "sim s s' \<Longrightarrow> clearcache s' = clearcache s"
  unfolding sim_def by (rule conjunct1)

lemma sim_length: "sim s s' \<Longrightarrow> length (points s') = length (points s)"
  by (rule clearcache_eq_length) (rule sim_cc)

lemma sim_avl: "sim s s' \<Longrightarrow> i < length (points s) \<Longrightarrow> avl s' i = avl s i"
  unfolding sim_def by blast

lemma simI: "clearcache s' = clearcache s \<Longrightarrow> (\<And>i. i < length (points s) \<Longrightarrow> avl s' i = avl s i) \<Longrightarrow> sim s s'"
  unfolding sim_def by blast

lemma sim_trans:
  assumes "sim s s'" and "sim s' s''"
  shows "sim s s''"
proof (rule simI)
  show "clearcache s'' = clearcache s" using sim_cc[OF assms(2)] sim_cc[OF assms(1)] by (rule trans)
  fix i assume i: "i < length (points s)"
  then have "i < length (points s')" using sim_length[OF assms(1)] by simp
  then have "avl s'' i = avl s' i" by (rule sim_avl[OF assms(2)])
  also have "\<dots> = avl s i" by (rule sim_avl[OF assms(1) i])
  finally show "avl s'' i = avl s i" .
qed

lemma sim_fields:
  assumes "sim s s'" and "i < length (points s)"
  shows "row (points s' ! i) = row (points s ! i)"
    and "col (points s' ! i) = col (points s ! i)"
    and "val (points s' ! i) = val (points s ! i)"
    and "failed (points s' ! i) = failed (points s ! i)"
    and "source (points s' ! i) = source (points s ! i)"
  by (rule clearcache_eq_fields[OF sim_cc[OF assms(1)] assms(2)])+

lemma available_sim:
  assumes "i < length (points s)"
  shows "sim s (snd (available s i))"
proof (cases "val (points s ! i) = 0 \<and> available_cache (points s ! i) = {}")
  case False
  then have "snd (available s i) = s" unfolding available_snd_unfold by (rule if_not_P)
  then show ?thesis by (simp add: sim_refl)
next
  case True
  let ?a = "fresh s (points s ! i)"
  let ?s' = "s\<lparr>points := (points s)[i := (points s ! i)\<lparr>available_cache := ?a\<rparr>]\<rparr>"
  have s': "snd (available s i) = ?s'" unfolding available_snd_unfold using True by (rule if_P)
  have cc: "clearcache ?s' = clearcache s" by (rule clearcache_cache_update[OF assms])
  have u: "fresh (s\<lparr>points := (points s)[i := (points s ! i)\<lparr>available_cache := a\<rparr>]\<rparr>) q = fresh s q" for q a
    by (rule fresh_cc[OF clearcache_cache_update[OF assms]])
  have "avl ?s' j = avl s j" if j: "j < length (points s)" for j
  proof (cases "j = i")
    case eq: True
    have "avl s i = ?a" using True by (simp add: avl_unfold)
    moreover have "avl ?s' i = ?a"
      using assms True by (simp add: avl_unfold u fresh_cache_irrelevant)
    ultimately show ?thesis using eq by simp
  next
    case False
    then show ?thesis by (simp add: avl_unfold u)
  qed
  then show ?thesis unfolding s' using cc by (rule simI[rotated])
qed

section \<open>Construction of a board\<close>

lemma pad81_length: "length (pad81 sp) = max 81 (length sp)"
  by (simp add: pad81_def)

lemma pad81_nth: "i < 81 \<Longrightarrow> pad81 sp ! i = (if i < length sp then sp ! i else CHR '' '')"
  by (simp add: pad81_def nth_append)

lemma cell_value_digits:
  "cell_value c =
     (case map_of (zip ''123456789'' [1, 2, 3, 4, 5, 6, 7, 8, 9]) c of None \<Rightarrow> 0 | Some d \<Rightarrow> d)"
  by (simp add: cell_value_def)

lemma Sudoku_length: "length (points (Sudoku sp nm)) = 81"
  by (simp add: Sudoku_def Let_def)

lemma Sudoku_nth:
  assumes "i < 81"
  shows "points (Sudoku sp nm) ! i =
           \<lparr>row = i div 9, col = i mod 9,
            val = (if sp = [] then (if i = 40 then 1 else 0)
                   else cell_value (if i < length sp then sp ! i else CHR '' '')),
            failed = {}, available_cache = {}, source = '' ''\<rparr>"
proof (cases "sp = []")
  case True
  then show ?thesis using assms by (simp add: Sudoku_def Let_def Point_def nth_list_update)
next
  case False
  have "i mod 9 + 9 * (i div 9) = i" by simp
  then show ?thesis using assms False by (simp add: Sudoku_def Let_def Point_def pad81_nth)
qed

text \<open>
  Claim C8. The constructor has no failing branch: for every starting string it builds
  81 cells in row-major order (cell \<open>i\<close> is at row \<open>i div 9\<close> and column \<open>i mod 9\<close>),
  and the padded string is long enough for every index that is read.
  For a non-empty string the value of cell \<open>i\<close> is the digit at position \<open>i\<close> when
  that character is one of 1 to 9 (the table pairs each of these characters with its
  value), and 0 for any other character and for a position past the end of the string. For the empty string every value is 0 except the value
  1 of the cell at row 4 and column 4.
\<close>

theorem Sudoku_builds_81_cells:
  "length (points (Sudoku sp nm)) = 81 \<and> 81 \<le> length (pad81 sp) \<and>
   (\<forall>i<81. row (points (Sudoku sp nm) ! i) = i div 9 \<and>
            col (points (Sudoku sp nm) ! i) = i mod 9 \<and>
            val (points (Sudoku sp nm) ! i) =
              (if sp = [] then (if i div 9 = 4 \<and> i mod 9 = 4 then 1 else 0)
               else if i < length sp then
                 (case map_of (zip ''123456789'' [1, 2, 3, 4, 5, 6, 7, 8, 9]) (sp ! i) of
                    None \<Rightarrow> 0 | Some d \<Rightarrow> d)
               else 0))"
proof -
  have c: "(i div 9 = 4 \<and> i mod 9 = 4) = (i = 40)" for i :: nat by presburger
  show ?thesis
    by (simp add: Sudoku_length Sudoku_nth pad81_length cell_value_digits c cell_value_def)
qed

theorem Sudoku_builds_81_cells_witness:
  "map val (take 4 (points (Sudoku ''5x3'' ''w''))) = [5, 0, 3, 0] \<and>
   val (points (Sudoku [] ''w'') ! 40) = 1 \<and> val (points (Sudoku [] ''w'') ! 41) = 0"
proof -
  note t = Sudoku_builds_81_cells[of "''5x3''" "''w''"] Sudoku_builds_81_cells[of "[]" "''w''"]
  have "val (points (Sudoku ''5x3'' ''w'') ! 0) = 5" using t(1) by simp
  moreover have "val (points (Sudoku ''5x3'' ''w'') ! 1) = 0" using t(1) by simp
  moreover have "val (points (Sudoku ''5x3'' ''w'') ! 2) = 3" using t(1) by simp
  moreover have "val (points (Sudoku ''5x3'' ''w'') ! 3) = 0" using t(1) by simp
  moreover have "val (points (Sudoku [] ''w'') ! 40) = 1" using t(2) by simp
  moreover have "val (points (Sudoku [] ''w'') ! 41) = 0" using t(2) by simp
  moreover have "length (points (Sudoku ''5x3'' ''w'')) = 81" using t(1) by simp
  ultimately show ?thesis by (simp add: take_Suc_conv_app_nth numeral_eq_Suc)
qed

text \<open>
  Claim C10. For a starting string of more than 81 characters the padding leaves the
  string as it is, cell \<open>i\<close> sits at \<open>col + 9 * row = i\<close> and reads the character at that
  index, which is below 81; so two long strings with the same first 81 characters
  build the same cells.
\<close>

theorem Sudoku_reads_first_81:
  assumes "81 < length sp"
  shows "pad81 sp = sp \<and>
         (\<forall>i<81. col (points (Sudoku sp nm) ! i) + 9 * row (points (Sudoku sp nm) ! i) = i \<and>
                  val (points (Sudoku sp nm) ! i) = cell_value (pad81 sp ! i)) \<and>
         (\<forall>sp'. 81 < length sp' \<and> take 81 sp' = take 81 sp \<longrightarrow>
                points (Sudoku sp' nm) = points (Sudoku sp nm))"
proof -
  have ne: "sp \<noteq> []" using assms by auto
  have p: "pad81 sp = sp" using assms by (simp add: pad81_def)
  have a: "\<forall>i<81. col (points (Sudoku sp nm) ! i) + 9 * row (points (Sudoku sp nm) ! i) = i \<and>
                  val (points (Sudoku sp nm) ! i) = cell_value (pad81 sp ! i)"
    using assms ne by (simp add: Sudoku_nth p)
  have b: "points (Sudoku sp' nm) = points (Sudoku sp nm)"
    if l: "81 < length sp'" and t: "take 81 sp' = take 81 sp" for sp'
  proof (rule nth_equalityI)
    show "length (points (Sudoku sp' nm)) = length (points (Sudoku sp nm))" by (simp add: Sudoku_length)
    fix i assume "i < length (points (Sudoku sp' nm))"
    then have i: "i < 81" by (simp add: Sudoku_length)
    have "sp' ! i = take 81 sp' ! i" using i by simp
    also have "\<dots> = sp ! i" using i t by simp
    finally have "sp' ! i = sp ! i" .
    moreover have "sp' \<noteq> []" using l by auto
    ultimately show "points (Sudoku sp' nm) ! i = points (Sudoku sp nm) ! i"
      using i l assms ne by (simp add: Sudoku_nth)
  qed
  show ?thesis using p a b by blast
qed

theorem Sudoku_reads_first_81_witness:
  "81 < length (replicate 81 (CHR ''7'') @ ''95'') \<and>
   pad81 (replicate 81 (CHR ''7'') @ ''95'') = replicate 81 (CHR ''7'') @ ''95'' \<and>
   val (points (Sudoku (replicate 81 (CHR ''7'') @ ''95'') ''w'') ! 80)
     = cell_value (pad81 (replicate 81 (CHR ''7'') @ ''95'') ! 80) \<and>
   points (Sudoku (replicate 81 (CHR ''7'') @ ''1'') ''w'')
     = points (Sudoku (replicate 81 (CHR ''7'') @ ''95'') ''w'')"
proof -
  have l: "81 < length (replicate 81 (CHR ''7'') @ ''95'')" by simp
  have l': "81 < length (replicate 81 (CHR ''7'') @ ''1'')" by simp
  have t: "take 81 (replicate 81 (CHR ''7'') @ ''1'') = take 81 (replicate 81 (CHR ''7'') @ ''95'')"
    by simp
  have lt: "(80::nat) < 81" by simp
  note w = Sudoku_reads_first_81[OF l, of "''w''"]
  have a: "pad81 (replicate 81 (CHR ''7'') @ ''95'') = replicate 81 (CHR ''7'') @ ''95''"
    using w by (rule conjunct1)
  have b: "val (points (Sudoku (replicate 81 (CHR ''7'') @ ''95'') ''w'') ! 80)
     = cell_value (pad81 (replicate 81 (CHR ''7'') @ ''95'') ! 80)"
    using conjunct1[OF conjunct2[OF w]] lt by blast
  have c: "points (Sudoku (replicate 81 (CHR ''7'') @ ''1'') ''w'')
     = points (Sudoku (replicate 81 (CHR ''7'') @ ''95'') ''w'')"
    using conjunct2[OF conjunct2[OF w]] l' t by blast
  show ?thesis using l a b c by blast
qed

section \<open>The order of todo\<close>

lemma insort_key_decorated:
  assumes "\<forall>p\<in>set ys. fst p = f (snd p)"
  shows "map snd (insort_key fst (f x, x) ys) = insort_key f x (map snd ys)"
  using assms by (induction ys) auto

lemma sort_key_decorated: "map snd (sort_key fst (zip (map f xs) xs)) = sort_key f xs"
proof (induction xs)
  case Nil
  then show ?case by simp
next
  case (Cons x xs)
  have "\<forall>p\<in>set (sort_key fst (zip (map f xs) xs)). fst p = f (snd p)"
    by (auto simp: in_set_zip)
  then show ?case using Cons by (simp add: insort_key_decorated)
qed

lemma sort_key_cong_set:
  assumes "\<And>x. x \<in> set xs \<Longrightarrow> f x = g x"
  shows "sort_key f xs = sort_key g xs"
proof -
  show ?thesis using assms
  proof (induction xs)
    case Nil
    then show ?case by simp
  next
    case (Cons x xs)
    have i: "insort_key f x ys = insort_key g x ys" if "set ys \<subseteq> set (x # xs)" for ys
      using that Cons.prems by (induction ys) auto
    have "sort_key f xs = sort_key g xs" using Cons by simp
    then show ?case using i[of "sort_key g xs"] by auto
  qed
qed

lemma available_each_spec:
  assumes "set js \<subseteq> {..<length (points s)}"
  shows "fst (available_each s js) = map (avl s) js \<and> sim s (snd (available_each s js))"
  using assms
proof (induction js arbitrary: s)
  case Nil
  then show ?case by (simp add: sim_refl)
next
  case (Cons j js)
  obtain a s1 where a: "available s j = (a, s1)" by (cases "available s j")
  obtain as s2 where e: "available_each s1 js = (as, s2)" by (cases "available_each s1 js")
  have j: "j < length (points s)" using Cons.prems by simp
  have s1: "sim s s1" using available_sim[OF j] a by simp
  have a': "a = avl s j" using a by (simp add: avl_def)
  have sub: "set js \<subseteq> {..<length (points s1)}" using Cons.prems sim_length[OF s1] by simp
  have ih: "as = map (avl s1) js \<and> sim s1 s2" using Cons.IH[OF sub] e by simp
  have "map (avl s1) js = map (avl s) js" using Cons.prems sim_avl[OF s1] by auto
  then show ?case using a e a' ih sim_trans[OF s1] by simp
qed

lemma unset_cells_bound: "set (unset_cells s) \<subseteq> {..<length (points s)}"
  by (auto simp: unset_cells_def)

lemma unset_cells_iff: "i \<in> set (unset_cells s) \<longleftrightarrow> i < length (points s) \<and> val (points s ! i) = 0"
  by (auto simp: unset_cells_def)

lemma todo_spec: "fst (todo s) = todo_of s \<and> sim s (snd (todo s))"
proof -
  obtain avs s1 where e: "available_each s (unset_cells s) = (avs, s1)"
    by (cases "available_each s (unset_cells s)")
  have sp: "avs = map (avl s) (unset_cells s) \<and> sim s s1"
    using available_each_spec[OF unset_cells_bound, of s] e by simp
  have t: "todo s = (map snd (sort_key fst (zip (map card avs) (unset_cells s))), s1)"
    using e by (simp add: todo_def unset_cells_def Let_def)
  have "map card avs = map (\<lambda>i. card (avl s i)) (unset_cells s)" using sp by simp
  then have "map snd (sort_key fst (zip (map card avs) (unset_cells s))) = todo_of s"
    unfolding todo_of_def by (simp only: sort_key_decorated)
  then show ?thesis using t sp by simp
qed

lemma sim_unset_cells: 
  assumes "sim s s'"
  shows "unset_cells s' = unset_cells s"
proof -
  have "filter (\<lambda>i. val (points s' ! i) = 0) [0..<length (points s)]
      = filter (\<lambda>i. val (points s ! i) = 0) [0..<length (points s)]"
    by (rule filter_cong) (simp_all add: sim_fields(3)[OF assms])
  then show ?thesis by (simp add: unset_cells_def sim_length[OF assms])
qed

lemma sim_todo_of:
  assumes "sim s s'"
  shows "todo_of s' = todo_of s"
proof -
  have "sort_key (\<lambda>i. card (avl s' i)) (unset_cells s) = sort_key (\<lambda>i. card (avl s i)) (unset_cells s)"
    by (rule sort_key_cong_set) (simp add: unset_cells_iff sim_avl[OF assms])
  then show ?thesis by (simp add: todo_of_def sim_unset_cells[OF assms])
qed

section \<open>The deduction\<close>

lemma sim_pos_distinct:
  assumes "sim s s'"
  shows "pos_distinct s' = pos_distinct s"
proof -
  have "map (\<lambda>p. (row p, col p)) (points s') = map (\<lambda>p. (row p, col p)) (points s)"
    by (rule nth_equalityI) (simp_all add: sim_length[OF assms] sim_fields[OF assms])
  then show ?thesis by (simp add: pos_distinct_def)
qed

lemma pos_distinct_neq:
  assumes "pos_distinct s" and "i < length (points s)" and "j < length (points s)"
  shows "(points s ! i \<noteq> points s ! j) = (i \<noteq> j)"
proof -
  have "i = j" if "points s ! i = points s ! j"
  proof -
    have "map (\<lambda>p. (row p, col p)) (points s) ! i = map (\<lambda>p. (row p, col p)) (points s) ! j"
      using that assms by simp
    then show ?thesis using assms by (simp add: pos_distinct_def nth_eq_iff_index_eq del: nth_map)
  qed
  then show ?thesis by auto
qed

lemma pos_distinct_rowcol:
  assumes "pos_distinct s" and "i < length (points s)" and "j < length (points s)" and "i \<noteq> j"
  shows "row (points s ! i) \<noteq> row (points s ! j) \<or> col (points s ! i) \<noteq> col (points s ! j)"
proof -
  have "map (\<lambda>p. (row p, col p)) (points s) ! i \<noteq> map (\<lambda>p. (row p, col p)) (points s) ! j"
    using assms by (simp add: pos_distinct_def nth_eq_iff_index_eq del: nth_map)
  then show ?thesis using assms by auto
qed

lemma deduce_loop_sim:
  assumes "i < length (points s)" and "set js \<subseteq> {..<length (points s)}"
  shows "sim s (snd (snd (deduce_loop s i js dr dc)))"
  using assms
proof (induction js arbitrary: s dr dc)
  case Nil
  then show ?case by (simp add: sim_refl)
next
  case (Cons j js)
  obtain a s1 where a: "available s j = (a, s1)" by (cases "available s j")
  have j: "j < length (points s)" using Cons.prems by simp
  have s1: "sim s s1" using available_sim[OF j] a by simp
  have l: "length (points s1) = length (points s)" by (rule sim_length[OF s1])
  have ih1: "sim s1 (snd (snd (deduce_loop s1 i js dr' dc')))" for dr' dc'
    using Cons.IH[of s1] Cons.prems l by simp
  have ih0: "sim s (snd (snd (deduce_loop s i js dr' dc')))" for dr' dc'
    using Cons.IH[of s] Cons.prems by simp
  show ?case using a ih0 ih1 sim_trans[OF s1] by simp
qed

lemma deduce_loop_spec:
  assumes "pos_distinct s" and "i < length (points s)" and "set js \<subseteq> {..<length (points s)}"
  shows "fst (deduce_loop s i js dr dc) =
           dr \<union> \<Union> (avl s ` {j \<in> set js. j \<noteq> i \<and> val (points s ! j) = 0 \<and> row (points s ! j) = row (points s ! i)}) \<and>
         fst (snd (deduce_loop s i js dr dc)) =
           dc \<union> \<Union> (avl s ` {j \<in> set js. j \<noteq> i \<and> val (points s ! j) = 0 \<and> row (points s ! j) \<noteq> row (points s ! i)
                                     \<and> col (points s ! j) = col (points s ! i)})"
  using assms
proof (induction js arbitrary: s dr dc)
  case Nil
  then show ?case by simp
next
  case (Cons j js)
  let ?R = "\<lambda>s js. {j \<in> set js. j \<noteq> i \<and> val (points s ! j) = 0 \<and> row (points s ! j) = row (points s ! i)}"
  let ?C = "\<lambda>s js. {j \<in> set js. j \<noteq> i \<and> val (points s ! j) = 0 \<and> row (points s ! j) \<noteq> row (points s ! i)
                                     \<and> col (points s ! j) = col (points s ! i)}"
  obtain a s1 where a: "available s j = (a, s1)" by (cases "available s j")
  have j: "j < length (points s)" using Cons.prems by simp
  have i: "i < length (points s)" using Cons.prems by simp
  have s1: "sim s s1" using available_sim[OF j] a by simp
  have a': "a = avl s j" using a by (simp add: avl_def)
  have l: "length (points s1) = length (points s)" by (rule sim_length[OF s1])
  have pd1: "pos_distinct s1" using sim_pos_distinct[OF s1] Cons.prems by simp
  have sub: "set js \<subseteq> {..<length (points s)}" using Cons.prems by simp
  have R1: "?R s1 js = ?R s js"
    using sub sim_fields[OF s1] i by auto
  have C1: "?C s1 js = ?C s js"
    using sub sim_fields[OF s1] i by auto
  have A1: "\<Union> (avl s1 ` ?R s js) = \<Union> (avl s ` ?R s js)" "\<Union> (avl s1 ` ?C s js) = \<Union> (avl s ` ?C s js)"
    using sub sim_avl[OF s1] by auto
  have ih1: "fst (deduce_loop s1 i js dr' dc') = dr' \<union> \<Union> (avl s ` ?R s js) \<and>
             fst (snd (deduce_loop s1 i js dr' dc')) = dc' \<union> \<Union> (avl s ` ?C s js)" for dr' dc'
    using Cons.IH[OF pd1, of dr' dc'] i sub l R1 C1 A1 by simp
  have ih0: "fst (deduce_loop s i js dr' dc') = dr' \<union> \<Union> (avl s ` ?R s js) \<and>
             fst (snd (deduce_loop s i js dr' dc')) = dc' \<union> \<Union> (avl s ` ?C s js)" for dr' dc'
    using Cons.IH[OF Cons.prems(1), of dr' dc'] i sub by simp
  have ne: "(points s ! i \<noteq> points s ! j) = (j \<noteq> i)"
    using pos_distinct_neq[OF Cons.prems(1) i j] by auto
  consider (row) "j \<noteq> i" "val (points s ! j) = 0" "row (points s ! j) = row (points s ! i)"
    | (col) "j \<noteq> i" "val (points s ! j) = 0" "row (points s ! j) \<noteq> row (points s ! i)" "col (points s ! j) = col (points s ! i)"
    | (none) "\<not> (j \<noteq> i \<and> val (points s ! j) = 0 \<and> (row (points s ! j) = row (points s ! i) \<or> col (points s ! j) = col (points s ! i)))"
    by blast
  then show ?case
  proof cases
    case row
    then have R: "?R s (j # js) = insert j (?R s js)" and C: "?C s (j # js) = ?C s js" by auto
    have "deduce_loop s i (j # js) dr dc = deduce_loop s1 i js (dr \<union> a) dc"
      using row ne a by simp
    then show ?thesis unfolding R C using ih1[of "dr \<union> a" dc] a' by auto
  next
    case col
    then have R: "?R s (j # js) = ?R s js" and C: "?C s (j # js) = insert j (?C s js)" by auto
    have "deduce_loop s i (j # js) dr dc = deduce_loop s1 i js dr (dc \<union> a)"
      using col ne a by simp
    then show ?thesis unfolding R C using ih1[of dr "dc \<union> a"] a' by auto
  next
    case none
    then have R: "?R s (j # js) = ?R s js" and C: "?C s (j # js) = ?C s js" by auto
    have "deduce_loop s i (j # js) dr dc = deduce_loop s i js dr dc"
      using none ne by auto
    then show ?thesis unfolding R C using ih0[of dr dc] by simp
  qed
qed

lemma upt_bound: "set [0..<n] \<subseteq> {..<n}"
  by auto

lemma deduce_unfold:
  "deduce s i =
     (let r = deduce_loop s i [0..<length (points s)] {} {};
          s2 = snd (available (snd (snd r)) i);
          a1 = avl (snd (snd r)) i;
          s3 = snd (available s2 i);
          a2 = avl s2 i
      in if card (a1 - fst r) = 1 then (a1 - fst r, s2)
         else if card (a2 - fst (snd r)) = 1 then (a2 - fst (snd r), s3) else ({}, s3))"
  by (simp add: deduce_def avl_def Let_def split: prod.splits)

lemma deduce_weak:
  assumes i: "i < length (points s)"
  shows "sim s (snd (deduce s i))" and "fst (deduce s i) \<subseteq> avl s i"
    and "fst (deduce s i) \<noteq> {} \<Longrightarrow> card (fst (deduce s i)) = 1"
proof -
  let ?r = "deduce_loop s i [0..<length (points s)] {} {}"
  let ?s1 = "snd (snd ?r)"
  let ?s2 = "snd (available ?s1 i)"
  let ?s3 = "snd (available ?s2 i)"
  have s1: "sim s ?s1" by (rule deduce_loop_sim[OF i upt_bound])
  have i1: "i < length (points ?s1)" using sim_length[OF s1] i by simp
  have s12: "sim ?s1 ?s2" by (rule available_sim[OF i1])
  have s2: "sim s ?s2" by (rule sim_trans[OF s1 s12])
  have i2: "i < length (points ?s2)" using sim_length[OF s2] i by simp
  have s3: "sim s ?s3" by (rule sim_trans[OF s2 available_sim[OF i2]])
  have a1: "avl ?s1 i = avl s i" by (rule sim_avl[OF s1 i])
  have a2: "avl ?s2 i = avl s i" by (rule sim_avl[OF s2 i])
  show "sim s (snd (deduce s i))" using s2 s3 by (simp add: deduce_unfold Let_def)
  show "fst (deduce s i) \<subseteq> avl s i" using a1 a2 by (auto simp: deduce_unfold Let_def)
  show "fst (deduce s i) \<noteq> {} \<Longrightarrow> card (fst (deduce s i)) = 1"
    by (auto simp: deduce_unfold Let_def split: if_splits)
qed

lemma deduce_spec:
  assumes pd: "pos_distinct s" and i: "i < length (points s)"
  shows "fst (deduce s i) = deduce_of s i"
proof -
  let ?r = "deduce_loop s i [0..<length (points s)] {} {}"
  let ?s1 = "snd (snd ?r)"
  let ?s2 = "snd (available ?s1 i)"
  have s1: "sim s ?s1" by (rule deduce_loop_sim[OF i upt_bound])
  have i1: "i < length (points ?s1)" using sim_length[OF s1] i by simp
  have s2: "sim s ?s2" by (rule sim_trans[OF s1 available_sim[OF i1]])
  have a1: "avl ?s1 i = avl s i" by (rule sim_avl[OF s1 i])
  have a2: "avl ?s2 i = avl s i" by (rule sim_avl[OF s2 i])
  have sp: "fst ?r = {} \<union> \<Union> (avl s ` {j \<in> set [0..<length (points s)]. j \<noteq> i \<and> val (points s ! j) = 0 \<and> row (points s ! j) = row (points s ! i)}) \<and>
         fst (snd ?r) = {} \<union> \<Union> (avl s ` {j \<in> set [0..<length (points s)]. j \<noteq> i \<and> val (points s ! j) = 0 \<and> row (points s ! j) \<noteq> row (points s ! i)
                                     \<and> col (points s ! j) = col (points s ! i)})"
    by (rule deduce_loop_spec[OF pd i upt_bound])
  have r: "fst ?r = deducerow_of s i" using sp by (auto simp: deducerow_of_def)
  have "{j \<in> set [0..<length (points s)]. j \<noteq> i \<and> val (points s ! j) = 0 \<and> row (points s ! j) \<noteq> row (points s ! i)
                                     \<and> col (points s ! j) = col (points s ! i)}
      = {j \<in> set [0..<length (points s)]. j \<noteq> i \<and> val (points s ! j) = 0 \<and> col (points s ! j) = col (points s ! i)}"
    using pos_distinct_rowcol[OF pd _ i] by auto
  then have c: "fst (snd ?r) = deducecol_of s i" using sp by (auto simp: deducecol_of_def)
  show ?thesis unfolding deduce_unfold Let_def deduce_of_def a1 a2 r c by simp
qed

lemma sim_deduce_of:
  assumes s: "sim s s'" and i: "i < length (points s)"
  shows "deduce_of s' i = deduce_of s i"
proof -
  have l: "length (points s') = length (points s)" by (rule sim_length[OF s])
  have r: "deducerow_of s' i = deducerow_of s i"
    unfolding deducerow_of_def l using sim_fields[OF s] sim_avl[OF s] i by auto
  have c: "deducecol_of s' i = deducecol_of s i"
    unfolding deducecol_of_def l using sim_fields[OF s] sim_avl[OF s] i by auto
  show ?thesis unfolding deduce_of_def r c sim_avl[OF s i] by simp
qed

lemma deduced_loop_weak:
  assumes "set js \<subseteq> {..<length (points s)}"
  shows "sim s (snd (deduced_loop s js)) \<and>
         set (fst (deduced_loop s js)) \<subseteq> {j \<in> set js. val (points s ! j) = 0}"
  using assms
proof (induction js arbitrary: s)
  case Nil
  then show ?case by (simp add: sim_refl)
next
  case (Cons j js)
  obtain a s1 where a: "available s j = (a, s1)" by (cases "available s j")
  obtain d s2 where d: "deduce s1 j = (d, s2)" by (cases "deduce s1 j")
  have j: "j < length (points s)" and sub: "set js \<subseteq> {..<length (points s)}" using Cons.prems by simp_all
  have s1: "sim s s1" using available_sim[OF j] a by simp
  have j1: "j < length (points s1)" using sim_length[OF s1] j by simp
  have s12: "sim s1 s2" using deduce_weak(1)[OF j1] d by simp
  have s2: "sim s s2" by (rule sim_trans[OF s1 s12])
  have ih: "sim t (snd (deduced_loop t js)) \<and> set (fst (deduced_loop t js)) \<subseteq> {j \<in> set js. val (points s ! j) = 0}"
    if "sim s t" for t
  proof -
    have "set js \<subseteq> {..<length (points t)}" using sub sim_length[OF that] by simp
    moreover have "val (points t ! k) = val (points s ! k)" if "k \<in> set js" for k
      using that sub sim_fields(3)[OF \<open>sim s t\<close>, of k] by auto
    ultimately show ?thesis using Cons.IH[of t] by auto
  qed
  show ?case
  proof (cases "val (points s ! j) = 0")
    case False
    then show ?thesis using ih[OF sim_refl] by auto
  next
    case True
    show ?thesis
    proof (cases "card a > 1")
      case False
      then show ?thesis using True a ih[OF s1] sim_trans[OF s1] by auto
    next
      case c: True
      obtain ans s3 where r: "deduced_loop s2 js = (ans, s3)" by (cases "deduced_loop s2 js")
      have "deduced_loop s (j # js) = (if d \<noteq> {} then j # ans else ans, s3)"
        using True c a d r by simp
      then show ?thesis using ih[OF s2] r sim_trans[OF s2] True by auto
    qed
  qed
qed

lemma deduced_loop_spec:
  assumes "pos_distinct s" and "set js \<subseteq> {..<length (points s)}"
  shows "fst (deduced_loop s js) =
           filter (\<lambda>j. val (points s ! j) = 0 \<and> card (avl s j) > 1 \<and> deduce_of s j \<noteq> {}) js"
  using assms
proof (induction js arbitrary: s)
  case Nil
  then show ?case by simp
next
  case (Cons j js)
  let ?P = "\<lambda>s j. val (points s ! j) = 0 \<and> card (avl s j) > 1 \<and> deduce_of s j \<noteq> {}"
  obtain a s1 where a: "available s j = (a, s1)" by (cases "available s j")
  obtain d s2 where d: "deduce s1 j = (d, s2)" by (cases "deduce s1 j")
  have j: "j < length (points s)" and sub: "set js \<subseteq> {..<length (points s)}" using Cons.prems by simp_all
  have s1: "sim s s1" using available_sim[OF j] a by simp
  have a': "a = avl s j" using a by (simp add: avl_def)
  have j1: "j < length (points s1)" using sim_length[OF s1] j by simp
  have s12: "sim s1 s2" using deduce_weak(1)[OF j1] d by simp
  have s2: "sim s s2" by (rule sim_trans[OF s1 s12])
  have pd1: "pos_distinct s1" using sim_pos_distinct[OF s1] Cons.prems(1) by simp
  have d': "d = deduce_of s j" using deduce_spec[OF pd1 j1] d sim_deduce_of[OF s1 j] by simp
  have ih: "fst (deduced_loop t js) = filter (?P s) js" if t: "sim s t" for t
  proof -
    have "set js \<subseteq> {..<length (points t)}" using sub sim_length[OF t] by simp
    moreover have "pos_distinct t" using sim_pos_distinct[OF t] Cons.prems(1) by simp
    ultimately have "fst (deduced_loop t js) = filter (?P t) js" by (rule Cons.IH[rotated])
    moreover have "filter (?P t) js = filter (?P s) js"
      by (rule filter_cong) (use sub sim_fields(3)[OF t] sim_avl[OF t] sim_deduce_of[OF t] in auto)
    ultimately show ?thesis by simp
  qed
  show ?case
  proof (cases "val (points s ! j) = 0")
    case False
    then show ?thesis using ih[OF sim_refl] by auto
  next
    case True
    show ?thesis
    proof (cases "card a > 1")
      case False
      then show ?thesis using True a a' ih[OF s1] by auto
    next
      case c: True
      obtain ans s3 where r: "deduced_loop s2 js = (ans, s3)" by (cases "deduced_loop s2 js")
      have "deduced_loop s (j # js) = (if d \<noteq> {} then j # ans else ans, s3)"
        using True c a d r by simp
      then show ?thesis using ih[OF s2] r True c a' d' by auto
    qed
  qed
qed

lemma deduced_weak:
  "sim s (snd (deduced s))"
  "set (fst (deduced s)) \<subseteq> {j. j < length (points s) \<and> val (points s ! j) = 0}"
  using deduced_loop_weak[OF upt_bound, of s] by (auto simp: deduced_def)

lemma deduced_spec: "pos_distinct s \<Longrightarrow> fst (deduced s) = deduced_of s"
  using deduced_loop_spec[OF _ upt_bound, of s] by (simp add: deduced_def deduced_of_def)

lemma sim_deduced_of:
  assumes s: "sim s s'"
  shows "deduced_of s' = deduced_of s"
  unfolding deduced_of_def sim_length[OF s]
  by (rule filter_cong) (use sim_fields(3)[OF s] sim_avl[OF s] sim_deduce_of[OF s] in auto)

section \<open>Coherent caches and the work left\<close>

lemma cache_ok_iff:
  "cache_ok s \<longleftrightarrow>
     (\<forall>i<length (points s). avl s i = (if val (points s ! i) = 0 then fresh s (points s ! i) else {}))"
  unfolding cache_ok_def list_all_length avl_unfold by (intro all_cong1 imp_cong refl) auto

lemma sim_fresh:
  assumes "sim s s'" and "i < length (points s)"
  shows "fresh s' (points s' ! i) = fresh s (points s ! i)"
  using used_clearcache_eq[OF sim_cc[OF assms(1)] assms(2)] by (simp add: fresh_def)

lemma sim_cache_ok:
  assumes "sim s s'"
  shows "cache_ok s' = cache_ok s"
  unfolding cache_ok_iff sim_length[OF assms]
  by (intro all_cong1 imp_cong refl) (simp add: sim_avl[OF assms] sim_fresh[OF assms] sim_fields(3)[OF assms])

lemma cache_ok_avl:
  "cache_ok s \<Longrightarrow> i < length (points s) \<Longrightarrow> val (points s ! i) = 0 \<Longrightarrow> avl s i = fresh s (points s ! i)"
  by (simp add: cache_ok_iff)

lemma cache_ok_avl_set:
  "cache_ok s \<Longrightarrow> i < length (points s) \<Longrightarrow> val (points s ! i) \<noteq> 0 \<Longrightarrow> avl s i = {}"
  by (simp add: cache_ok_iff)

lemma clearcache_cache_ok: "cache_ok (clearcache s)"
  by (simp add: cache_ok_def clearcache_points list_all_iff)

lemma clearcache_idem: "clearcache (clearcache s) = clearcache s"
  by (simp add: clearcache_def comp_def)

lemma setpoint_cache_ok: "cache_ok (setpoint s i v src)"
  unfolding setpoint_def by (rule clearcache_cache_ok)

lemma record_failed_cache_ok: "cache_ok (snd (record_failed g s i v))"
  unfolding record_failed_def snd_conv by (rule clearcache_cache_ok)

lemma setpoint_clearcache: "setpoint (clearcache s) i v src = setpoint s i v src"
proof (cases "i < length (points s)")
  case True
  then show ?thesis
    by (simp add: setpoint_def clearcache_def list_eq_iff_nth_eq nth_list_update)
next
  case False
  then show ?thesis by (simp add: setpoint_def clearcache_def comp_def list_update_beyond)
qed

lemma record_failed_clearcache: "record_failed g (clearcache s) i v = record_failed g s i v"
proof (cases "i < length (points s)")
  case True
  then show ?thesis
    by (simp add: record_failed_def clearcache_def list_eq_iff_nth_eq nth_list_update)
next
  case False
  then show ?thesis by (simp add: record_failed_def clearcache_def comp_def list_update_beyond)
qed

lemma sim_setpoint: "sim s s' \<Longrightarrow> setpoint s' i v src = setpoint s i v src"
  using setpoint_clearcache[of s i v src] setpoint_clearcache[of s' i v src] sim_cc[of s s'] by simp

lemma sim_record_failed: "sim s s' \<Longrightarrow> record_failed g s' i v = record_failed g s i v"
  using record_failed_clearcache[of g s i v] record_failed_clearcache[of g s' i v] sim_cc[of s s'] by simp

lemma weight_cache: "weight (p\<lparr>available_cache := a\<rparr>) = weight p"
  by (simp add: weight_def)

lemma weights_clearcache: "map weight (points (clearcache s)) = map weight (points s)"
  by (simp add: clearcache_points comp_def weight_cache)

lemma work_left_clearcache: "work_left (clearcache s) = work_left s"
  by (simp add: work_left_def weights_clearcache)

lemma sim_work_left: "sim s s' \<Longrightarrow> work_left s' = work_left s"
  using work_left_clearcache[of s] work_left_clearcache[of s'] sim_cc[of s s'] by simp

lemma weight_pos: "val p = 0 \<Longrightarrow> 0 < weight p"
proof -
  have "card (failed p \<inter> {1..9}) \<le> card {1..9::int}" by (rule card_mono) auto
  then show "val p = 0 \<Longrightarrow> 0 < weight p" by (simp add: weight_def)
qed

lemma sum_list_update_less:
  fixes xs :: "nat list"
  assumes "i < length xs" and "y < xs ! i"
  shows "sum_list (xs[i := y]) < sum_list xs"
proof -
  have "xs ! i \<le> sum_list xs" using assms(1) by (simp add: member_le_sum_list)
  then show ?thesis using assms by (simp add: sum_list_update)
qed

lemma work_left_setpoint:
  assumes "i < length (points s)" and "val (points s ! i) = 0" and "v \<noteq> 0"
  shows "work_left (setpoint s i v src) < work_left s"
proof -
  have "weight ((points s ! i)\<lparr>val := v, source := src\<rparr>) = 0"
    using assms(3) by (simp add: weight_def)
  then have "map weight (points (setpoint s i v src)) = (map weight (points s))[i := 0]"
    unfolding setpoint_def weights_clearcache by (simp add: map_update)
  then show ?thesis
    unfolding work_left_def using assms weight_pos[of "points s ! i"] by (simp add: sum_list_update_less)
qed

lemma work_left_record_failed:
  assumes "i < length (points s)" and "val (points s ! i) = 0" and "v \<in> {1..9}"
    and "v \<notin> failed (points s ! i)"
  shows "work_left (snd (record_failed g s i v)) < work_left s"
proof -
  let ?F = "failed (points s ! i)"
  have fin: "finite (?F \<inter> {1..9})" by simp
  have "insert v ?F \<inter> {1..9} = insert v (?F \<inter> {1..9})" using assms(3) by auto
  then have c: "card (insert v ?F \<inter> {1..9}) = Suc (card (?F \<inter> {1..9}))"
    using assms(4) fin by simp
  have "card (insert v ?F \<inter> {1..9}) \<le> card {1..9::int}" by (rule card_mono) auto
  then have le: "Suc (card (?F \<inter> {1..9})) \<le> 9" using c by simp
  have "weight ((points s ! i)\<lparr>failed := insert v ?F\<rparr>) = 10 - Suc (card (?F \<inter> {1..9}))"
    using assms(2) c by (simp add: weight_def)
  then have "map weight (points (snd (record_failed g s i v))) = (map weight (points s))[i := 10 - Suc (card (?F \<inter> {1..9}))]"
    unfolding record_failed_def snd_conv weights_clearcache by (simp add: map_update)
  moreover have "10 - Suc (card (?F \<inter> {1..9})) < map weight (points s) ! i"
    using assms(1,2) le by (simp add: weight_def)
  ultimately show ?thesis
    unfolding work_left_def using assms(1) by (simp add: sum_list_update_less)
qed

lemma fresh_range: "fresh s p \<subseteq> {1..9} - failed p"
  by (auto simp: fresh_def used_def)

section \<open>The first loop terminates\<close>

lemma next_iter_Inr:
  assumes "next_iter ord S = Inr v"
  shows "S \<noteq> {}" and "finite S \<Longrightarrow> v \<in> S"
proof -
  show ne: "S \<noteq> {}" using assms by (auto simp: next_iter_def split: if_splits)
  show "v \<in> S" if "finite S"
    using assms Min_in[OF that ne] by (auto simp: next_iter_def split: if_splits)
qed

lemma next_iter_nonempty: "S \<noteq> {} \<Longrightarrow> \<exists>v. next_iter ord S = Inr v"
  by (simp add: next_iter_def)

lemma todo_fst: "fst (todo s) = todo_of s"
  using todo_spec by blast

lemma todo_sim: "sim s (snd (todo s))"
  using todo_spec by blast

lemma todo_pair: "todo s = (todo_of s, snd (todo s))"
  using todo_fst[of s] by (cases "todo s") simp

lemma todo_of_set: "set (todo_of s) = {i. i < length (points s) \<and> val (points s ! i) = 0}"
  by (auto simp: todo_of_def unset_cells_iff)

lemma first_todo_unfold:
  "first_todo s = (case todo_of s of [] \<Rightarrow> Inl IndexError | t # _ \<Rightarrow> Inr (t, snd (todo s)))"
  unfolding first_todo_def by (subst todo_pair) simp

lemma first_todo_Inr:
  assumes "first_todo s = Inr (t, s1)"
  shows "sim s s1" and "todo_of s \<noteq> []" and "t = hd (todo_of s)"
    and "t < length (points s)" and "val (points s ! t) = 0"
proof -
  from assms have e: "todo_of s \<noteq> [] \<and> t = hd (todo_of s) \<and> s1 = snd (todo s)"
    by (auto simp: first_todo_unfold split: list.splits)
  then show "sim s s1" "todo_of s \<noteq> []" "t = hd (todo_of s)" using todo_sim by auto
  have "t \<in> set (todo_of s)" using e by simp
  then show "t < length (points s)" "val (points s ! t) = 0" by (auto simp: todo_of_set)
qed

lemma available_pair: "available s i = (avl s i, snd (available s i))"
  by (simp add: avl_def)

lemma known_cond_sim:
  assumes "known_cond ded s = Inr (c, s')"
  shows "sim s s'"
proof -
  let ?s1 = "snd (todo s)"
  have s1: "sim s ?s1" by (rule todo_sim)
  show ?thesis
  proof (cases "todo_of s = []")
    case True
    then have "known_cond ded s = Inr (False, ?s1)" unfolding known_cond_def by (subst todo_pair) simp
    then show ?thesis using assms s1 by simp
  next
    case False
    have ne1: "todo_of ?s1 \<noteq> []" using False sim_todo_of[OF s1] by simp
    then obtain t ts where tt: "todo_of ?s1 = t # ts" by (cases "todo_of ?s1") auto
    let ?s2 = "snd (todo ?s1)"
    have ft: "first_todo ?s1 = Inr (t, ?s2)" using tt by (simp add: first_todo_unfold)
    have s2: "sim s ?s2" by (rule sim_trans[OF s1 todo_sim])
    have t: "t < length (points ?s2)" using first_todo_Inr(4)[OF ft] sim_length[OF todo_sim, of ?s1] by simp
    let ?s3 = "snd (available ?s2 t)"
    have s3: "sim s ?s3" by (rule sim_trans[OF s2 available_sim[OF t]])
    let ?s4 = "snd (deduced ?s3)"
    have s4: "sim s ?s4" by (rule sim_trans[OF s3 deduced_weak(1)])
    have "known_cond ded s =
            (if card (avl ?s2 t) = 1 then Inr (True, ?s3)
             else if ded then Inr (fst (deduced ?s3) \<noteq> [], ?s4) else Inr (False, ?s3))"
      unfolding known_cond_def
      apply (subst todo_pair)
      apply (simp add: False ft split_beta available_fst)
      done
    then show ?thesis using assms s3 s4 by (auto split: if_splits)
  qed
qed

lemma known_step_weak:
  assumes "known_step ord g s = Inr (g', s')"
  shows "\<exists>t v src. s' = setpoint s t v src \<and> t < length (points s) \<and> val (points s ! t) = 0 \<and> v \<in> avl s t"
proof -
  from assms obtain t0 s1 where ft0: "first_todo s = Inr (t0, s1)"
    by (auto simp: known_step_def split: sum.splits)
  have s1: "sim s s1" by (rule first_todo_Inr(1)[OF ft0])
  have l1: "length (points s1) = length (points s)" by (rule sim_length[OF s1])
  have t0: "t0 < length (points s1)" using first_todo_Inr(4)[OF ft0] l1 by simp
  let ?s2 = "snd (available s1 t0)"
  have s12: "sim s1 ?s2" by (rule available_sim[OF t0])
  have s2: "sim s ?s2" by (rule sim_trans[OF s1 s12])
  have l2: "length (points ?s2) = length (points s)" by (rule sim_length[OF s2])
  show ?thesis
  proof (cases "card (avl s1 t0) = 1")
    case True
    from assms ft0 True obtain t s3 where ft: "first_todo ?s2 = Inr (t, s3)"
      by (auto simp: known_step_def avl_def split: sum.splits prod.splits)
    have s23: "sim ?s2 s3" by (rule first_todo_Inr(1)[OF ft])
    have s3: "sim s s3" by (rule sim_trans[OF s2 s23])
    have t: "t < length (points s)" and tv: "val (points s ! t) = 0"
      using first_todo_Inr(4,5)[OF ft] l2 sim_fields(3)[OF s2, of t] by simp_all
    have t3: "t < length (points s3)" using t sim_length[OF s3] by simp
    let ?s4 = "snd (available s3 t)"
    have s4: "sim s ?s4" by (rule sim_trans[OF s3 available_sim[OF t3]])
    have a3: "avl s3 t = avl s t" by (rule sim_avl[OF s3 t])
    have tt: "t = t0"
      using first_todo_Inr(3)[OF ft] first_todo_Inr(3)[OF ft0] sim_todo_of[OF s2] by simp
    have c: "card (avl s t) = 1" using True tt sim_avl[OF s1 t] by simp
    then have fin: "finite (avl s t)" using card.infinite by fastforce
    from assms ft0 True ft obtain v where ni: "next_iter ord (avl s3 t) = Inr v"
      and res: "s' = setpoint ?s4 t v ''=''"
      by (auto simp: known_step_def avl_def split: sum.splits prod.splits)
    have "v \<in> avl s t" using next_iter_Inr(2)[OF ni] a3 fin by simp
    moreover have "s' = setpoint s t v ''=''" using res sim_setpoint[OF s4] by simp
    ultimately show ?thesis using t tv by blast
  next
    case False
    let ?s3 = "snd (deduced ?s2)"
    have s3: "sim s ?s3" by (rule sim_trans[OF s2 deduced_weak(1)])
    from assms ft0 False obtain t ts where dd: "fst (deduced ?s2) = t # ts"
      by (auto simp: known_step_def avl_def split: sum.splits prod.splits list.splits)
    have "t \<in> {j. j < length (points ?s2) \<and> val (points ?s2 ! j) = 0}"
      using deduced_weak(2)[of ?s2] dd by auto
    then have t: "t < length (points s)" and tv: "val (points s ! t) = 0"
      using l2 sim_fields(3)[OF s2, of t] by simp_all
    have t3: "t < length (points ?s3)" using t sim_length[OF s3] by simp
    let ?s4 = "snd (deduce ?s3 t)"
    have s4: "sim s ?s4" by (rule sim_trans[OF s3 deduce_weak(1)[OF t3]])
    from assms ft0 False dd obtain v where ni: "next_iter ord (fst (deduce ?s3 t)) = Inr v"
      and res: "s' = setpoint ?s4 t v ''*''"
      by (auto simp: known_step_def avl_def split: sum.splits prod.splits list.splits)
    have ne: "fst (deduce ?s3 t) \<noteq> {}" by (rule next_iter_Inr(1)[OF ni])
    have "card (fst (deduce ?s3 t)) = 1" by (rule deduce_weak(3)[OF t3 ne])
    then have "finite (fst (deduce ?s3 t))" using card.infinite by fastforce
    then have "v \<in> fst (deduce ?s3 t)" by (rule next_iter_Inr(2)[OF ni])
    then have "v \<in> avl s t" using deduce_weak(2)[OF t3] sim_avl[OF s3 t] by auto
    moreover have "s' = setpoint s t v ''*''" using res sim_setpoint[OF s4] by simp
    ultimately show ?thesis using t tv by blast
  qed
qed

lemma known_step_decreases:
  assumes "known_step ord g s = Inr (g', s')" and "cache_ok s"
  shows "work_left s' < work_left s"
proof -
  from known_step_weak[OF assms(1)] obtain t v src where
    s': "s' = setpoint s t v src" and t: "t < length (points s)" and tv: "val (points s ! t) = 0"
    and v: "v \<in> avl s t" by blast
  have "avl s t = fresh s (points s ! t)" by (rule cache_ok_avl[OF assms(2) t tv])
  then have "v \<in> {1..9}" using v fresh_range by blast
  then have "v \<noteq> 0" by auto
  then show ?thesis unfolding s' by (rule work_left_setpoint[OF t tv])
qed

lemma known_step_cache_ok:
  assumes "known_step ord g s = Inr (g', s')"
  shows "cache_ok s'"
  using known_step_weak[OF assms] setpoint_cache_ok by blast

termination known_values
proof (relation "inv_image (less_than <*lex*> less_than)
                   (\<lambda>(ord, ded, g, s). (if cache_ok s then 0 else 1 :: nat, work_left s))")
  show "wf (inv_image (less_than <*lex*> less_than)
                   (\<lambda>(ord, ded, g, s). (if cache_ok s then 0 else 1 :: nat, work_left s)))"
    by (intro wf_inv_image wf_lex_prod wf_less_than)
next
  fix ord :: "int set \<Rightarrow> int" and ded g s x2 c s1 x2a g1 s2
  assume c: "known_cond ded s = Inr x2" and x: "(c, s1) = x2" and "c"
    and st: "known_step ord g s1 = Inr x2a" and y: "(g1, s2) = x2a"
  have s1: "sim s s1" using known_cond_sim[of ded s c s1] c x by simp
  have st': "known_step ord g s1 = Inr (g1, s2)" using st y by simp
  have ok2: "cache_ok s2" by (rule known_step_cache_ok[OF st'])
  have "work_left s2 < work_left s" if "cache_ok s"
  proof -
    have "cache_ok s1" using that sim_cache_ok[OF s1] by simp
    from known_step_decreases[OF st' this] show ?thesis using sim_work_left[OF s1] by simp
  qed
  then show "((ord, ded, g1, s2), ord, ded, g, s)
       \<in> inv_image (less_than <*lex*> less_than)
                   (\<lambda>(ord, ded, g, s). (if cache_ok s then 0 else 1 :: nat, work_left s))"
    using ok2 by auto
qed

declare known_values.simps [simp del]

section \<open>The second loop terminates\<close>

lemma known_values_unfold:
  "known_values ord ded g s =
     (case known_cond ded s of Inl e \<Rightarrow> Inl e | Inr (c, s1) \<Rightarrow>
      if c
      then (case known_step ord g s1 of Inl e \<Rightarrow> Inl e | Inr (g1, s2) \<Rightarrow> known_values ord ded g1 s2)
      else Inr (g, s1))"
  by (rule known_values.simps)

lemma known_values_inv:
  assumes "known_values ord ded g s = Inr (g', s')" and "cache_ok s"
  shows "cache_ok s' \<and> work_left s' \<le> work_left s"
  using assms
proof (induction ord ded g s rule: known_values.induct)
  case (1 ord ded g s)
  from "1.prems"(1) obtain c s1 where kc: "known_cond ded s = Inr (c, s1)"
    by (subst (asm) known_values_unfold) (auto split: sum.splits)
  have s1: "sim s s1" by (rule known_cond_sim[OF kc])
  have ok1: "cache_ok s1" using sim_cache_ok[OF s1] "1.prems"(2) by simp
  show ?case
  proof (cases c)
    case False
    then have "s' = s1" using "1.prems"(1) kc by (subst (asm) known_values_unfold) simp
    then show ?thesis using ok1 sim_work_left[OF s1] by simp
  next
    case True
    from "1.prems"(1) kc True obtain g1 s2 where ks: "known_step ord g s1 = Inr (g1, s2)"
      by (subst (asm) known_values_unfold) (auto split: sum.splits)
    have rec: "known_values ord ded g1 s2 = Inr (g', s')"
      using "1.prems"(1) kc True ks by (subst (asm) known_values_unfold) simp
    have ok2: "cache_ok s2" by (rule known_step_cache_ok[OF ks])
    have "cache_ok s' \<and> work_left s' \<le> work_left s2"
      using "1.IH"[OF kc refl True ks refl rec ok2] .
    moreover have "work_left s2 < work_left s"
      using known_step_decreases[OF ks ok1] sim_work_left[OF s1] by simp
    ultimately show ?thesis by simp
  qed
qed

lemma solve_entry_inv:
  assumes "solve_entry ord ded g s level = Inr (g', s')" and "cache_ok s"
  shows "cache_ok s' \<and> work_left s' \<le> work_left s"
  using assms unfolding solve_entry_def by (rule known_values_inv)

lemma search_prefix:
  assumes "(td, s1) = todo s" and "td \<noteq> []" and "first_todo s1 = Inr (t, s2)"
    and "(av, s3) = available s2 t"
  shows "sim s s3" and "t < length (points s)" and "val (points s ! t) = 0"
    and "av = avl s t" and "t = hd (todo_of s)"
proof -
  have s1: "sim s s1" using todo_sim[of s] assms(1)[symmetric] by simp
  have s12: "sim s1 s2" by (rule first_todo_Inr(1)[OF assms(3)])
  have s2: "sim s s2" by (rule sim_trans[OF s1 s12])
  have t1: "t < length (points s1)" "val (points s1 ! t) = 0" by (rule first_todo_Inr(4,5)[OF assms(3)])+
  show t: "t < length (points s)" using t1 sim_length[OF s1] by simp
  show "val (points s ! t) = 0" using t1 sim_fields(3)[OF s1 t] by simp
  have t2: "t < length (points s2)" using t sim_length[OF s2] by simp
  have "s3 = snd (available s2 t)" using assms(4)[symmetric] by simp
  then show "sim s s3" using sim_trans[OF s2 available_sim[OF t2]] by simp
  show "av = avl s t" using assms(4)[symmetric] sim_avl[OF s2 t] by (simp add: avl_def)
  show "t = hd (todo_of s)" using first_todo_Inr(3)[OF assms(3)] sim_todo_of[OF s1] by simp
qed

lemma guess_weak:
  assumes "guess g s use = Inr (g1, n)"
  shows "\<exists>tag. n = setpoint s (hd (todo_of s)) use tag \<and>
               guess_tag (card (failed (points s ! hd (todo_of s)))) = Inr tag"
    and "todo_of s \<noteq> []" and "g1 = g\<lparr>guesses := guesses g + 1\<rparr>"
proof -
  from assms obtain t s1 where ft: "first_todo s = Inr (t, s1)"
    by (auto simp: guess_def deepcopy_def split: sum.splits)
  note f = first_todo_Inr[OF ft]
  from assms ft obtain tag where tag: "guess_tag (card (failed (points s1 ! t))) = Inr tag"
    and n: "n = setpoint s1 t use tag" and g1: "g1 = g\<lparr>guesses := guesses g + 1\<rparr>"
    by (auto simp: guess_def deepcopy_def split: sum.splits)
  have "failed (points s1 ! t) = failed (points s ! t)" by (rule sim_fields(4)[OF f(1) f(4)])
  then have "guess_tag (card (failed (points s ! hd (todo_of s)))) = Inr tag" using tag f(3) by simp
  moreover have "n = setpoint s (hd (todo_of s)) use tag" using n sim_setpoint[OF f(1)] f(3) by simp
  ultimately show "\<exists>tag. n = setpoint s (hd (todo_of s)) use tag \<and>
               guess_tag (card (failed (points s ! hd (todo_of s)))) = Inr tag" by blast
  show "todo_of s \<noteq> []" by (rule f(2))
  show "g1 = g\<lparr>guesses := guesses g + 1\<rparr>" by (rule g1)
qed

lemma hd_todo_of:
  assumes "todo_of s \<noteq> []"
  shows "hd (todo_of s) < length (points s)" and "val (points s ! hd (todo_of s)) = 0"
proof -
  have "hd (todo_of s) \<in> set (todo_of s)" using assms by simp
  then show "hd (todo_of s) < length (points s)" "val (points s ! hd (todo_of s)) = 0"
    by (auto simp: todo_of_set)
qed

lemma cache_ok_avl_range:
  assumes "cache_ok s" and "i < length (points s)" and "val (points s ! i) = 0"
  shows "avl s i \<subseteq> {1..9} - failed (points s ! i)" and "finite (avl s i)"
proof -
  show "avl s i \<subseteq> {1..9} - failed (points s ! i)"
    using cache_ok_avl[OF assms] fresh_range by simp
  then have "avl s i \<subseteq> {1..9}" by blast
  then show "finite (avl s i)" by (rule finite_subset) simp
qed

termination search
proof (relation "inv_image (less_than <*lex*> less_than)
                   (\<lambda>(ord, ded, g, s, level). (if cache_ok s then 0 else 1 :: nat, work_left s))")
  show "wf (inv_image (less_than <*lex*> less_than)
                   (\<lambda>(ord, ded, g, s, level). (if cache_ok s then 0 else 1 :: nat, work_left s)))"
    by (intro wf_inv_image wf_lex_prod wf_less_than)
next
  fix ord :: "int set \<Rightarrow> int" and ded g s and level :: int and td s1 b t s2 av s3 use bb g1 nextlevel bc g2 n2
  assume a: "(td, s1) = todo s" "td \<noteq> []" "first_todo s1 = Inr b" "(t, s2) = b"
    "(av, s3) = available s2 t" "av \<noteq> {}" "next_iter ord av = Inr use"
    "guess g s3 use = Inr bb" "(g1, nextlevel) = bb"
    "solve_entry ord ded g1 nextlevel (level + 1) = Inr bc" "(g2, n2) = bc"
  have ft: "first_todo s1 = Inr (t, s2)" using a(3,4) by simp
  note p = search_prefix[OF a(1,2) ft a(5)]
  have gs: "guess g s3 use = Inr (g1, nextlevel)" using a(8,9) by simp
  from guess_weak(1)[OF gs] obtain tag where nl: "nextlevel = setpoint s3 (hd (todo_of s3)) use tag"
    by blast
  have nl': "nextlevel = setpoint s t use tag"
    using nl sim_setpoint[OF p(1)] sim_todo_of[OF p(1)] p(5) by simp
  have se: "solve_entry ord ded g1 nextlevel (level + 1) = Inr (g2, n2)" using a(10,11) by simp
  have okn: "cache_ok nextlevel" unfolding nl' by (rule setpoint_cache_ok)
  note inv = solve_entry_inv[OF se okn]
  have "work_left n2 < work_left s" if ok: "cache_ok s"
  proof -
    have "use \<in> avl s t"
      using next_iter_Inr(2)[OF a(7)] cache_ok_avl_range(2)[OF ok p(2,3)] p(4) by simp
    then have "use \<in> {1..9}" using cache_ok_avl_range(1)[OF ok p(2,3)] by blast
    then have "use \<noteq> 0" by auto
    then have "work_left nextlevel < work_left s" unfolding nl' by (rule work_left_setpoint[OF p(2,3)])
    then show ?thesis using inv by simp
  qed
  then show "((ord, ded, g2, n2, level + 1), ord, ded, g, s, level)
       \<in> inv_image (less_than <*lex*> less_than)
                   (\<lambda>(ord, ded, g, s, level). (if cache_ok s then 0 else 1 :: nat, work_left s))"
    using inv by auto
next
  fix ord :: "int set \<Rightarrow> int" and ded g s and level :: int and td s1 b t s2 av s3 use bb g1 nextlevel bc g2 n2
    bd ok ye g3 n3 g4 s4
  assume a: "(td, s1) = todo s" "td \<noteq> []" "first_todo s1 = Inr b" "(t, s2) = b"
    "(av, s3) = available s2 t" "av \<noteq> {}" "next_iter ord av = Inr use"
    and r: "(g4, s4) = record_failed g3 s3 t use"
  have ft: "first_todo s1 = Inr (t, s2)" using a(3,4) by simp
  note p = search_prefix[OF a(1,2) ft a(5)]
  have s4: "s4 = snd (record_failed g3 s t use)" using r[symmetric] sim_record_failed[OF p(1)] by simp
  have ok4: "cache_ok s4" unfolding s4 by (rule record_failed_cache_ok)
  have "work_left s4 < work_left s" if ok: "cache_ok s"
  proof -
    have "use \<in> avl s t"
      using next_iter_Inr(2)[OF a(7)] cache_ok_avl_range(2)[OF ok p(2,3)] p(4) by simp
    then have "use \<in> {1..9}" "use \<notin> failed (points s ! t)"
      using cache_ok_avl_range(1)[OF ok p(2,3)] by blast+
    then show ?thesis unfolding s4 by (rule work_left_record_failed[OF p(2,3)])
  qed
  then show "((ord, ded, g4, s4, level), ord, ded, g, s, level)
       \<in> inv_image (less_than <*lex*> less_than)
                   (\<lambda>(ord, ded, g, s, level). (if cache_ok s then 0 else 1 :: nat, work_left s))"
    using ok4 by auto
qed

declare search.simps [simp del]

section \<open>Boards of the solver\<close>

lemma grid_length: "grid s \<Longrightarrow> length (points s) = 81"
  unfolding grid_def using length_map[of "\<lambda>p. (row p, col p)" "points s"] by simp

lemma grid_nth:
  assumes "grid s" and "i < 81"
  shows "row (points s ! i) = i div 9" and "col (points s ! i) = i mod 9"
proof -
  have "map (\<lambda>p. (row p, col p)) (points s) ! i = map (\<lambda>i. (i div 9, i mod 9)) [0..<81] ! i"
    using assms(1) by (simp add: grid_def)
  then have "(row (points s ! i), col (points s ! i)) = (i div 9, i mod 9)"
    using assms(2) grid_length[OF assms(1)] by (simp del: upt_Suc)
  then show "row (points s ! i) = i div 9" "col (points s ! i) = i mod 9" by simp_all
qed

lemma grid_pos_distinct: "grid s \<Longrightarrow> pos_distinct s"
proof -
  have "inj_on (\<lambda>i::nat. (i div 9, i mod 9)) (set [0..<81])"
    by (rule inj_onI) (metis div_mult_mod_eq prod.inject)
  then have "distinct (map (\<lambda>i::nat. (i div 9, i mod 9)) [0..<81])"
    by (simp add: distinct_map del: upt_Suc)
  then show "grid s \<Longrightarrow> pos_distinct s" by (simp add: grid_def pos_distinct_def del: upt_Suc)
qed

lemma map_clearcache_fields:
  "map (\<lambda>p. (row p, col p)) (points (clearcache s)) = map (\<lambda>p. (row p, col p)) (points s)"
  by (simp add: clearcache_points comp_def)

lemma grid_clearcache: "grid (clearcache s) = grid s"
  by (simp add: grid_def map_clearcache_fields)

lemma values_ok_clearcache: "values_ok (clearcache s) = values_ok s"
  by (simp add: values_ok_def clearcache_points list_all_iff)

lemma failed_ok_clearcache: "failed_ok (clearcache s) = failed_ok s"
  by (simp add: failed_ok_def clearcache_points list_all_iff)

lemma peer_cache: "peer (p\<lparr>available_cache := a\<rparr>) (q\<lparr>available_cache := b\<rparr>) = peer p q"
  by (simp add: peer_def bigrow_def bigcol_def)

lemma consistent_clearcache: "consistent (clearcache s) = consistent s"
  by (simp add: consistent_def clearcache_points list_all_iff peer_cache)

lemma sim_grid: "sim s s' \<Longrightarrow> grid s' = grid s"
  using grid_clearcache[of s] grid_clearcache[of s'] sim_cc[of s s'] by simp

lemma sim_values_ok: "sim s s' \<Longrightarrow> values_ok s' = values_ok s"
  using values_ok_clearcache[of s] values_ok_clearcache[of s'] sim_cc[of s s'] by simp

lemma sim_failed_ok: "sim s s' \<Longrightarrow> failed_ok s' = failed_ok s"
  using failed_ok_clearcache[of s] failed_ok_clearcache[of s'] sim_cc[of s s'] by simp

lemma sim_consistent: "sim s s' \<Longrightarrow> consistent s' = consistent s"
  using consistent_clearcache[of s] consistent_clearcache[of s'] sim_cc[of s s'] by simp

lemma sim_board_ok: "sim s s' \<Longrightarrow> board_ok s' = board_ok s"
  by (simp add: board_ok_def sim_grid sim_values_ok sim_failed_ok sim_cache_ok)

lemma nth_update_if: "n < length xs \<Longrightarrow> xs[i := y] ! n = (if n = i then y else xs ! n)"
  by (cases "n = i") simp_all

lemma setpoint_points:
  "points (setpoint s i v src) =
     map (\<lambda>p. p\<lparr>available_cache := {}\<rparr>) ((points s)[i := (points s ! i)\<lparr>val := v, source := src\<rparr>])"
  by (simp add: setpoint_def clearcache_points)

lemma record_failed_points:
  "points (snd (record_failed g s i v)) =
     map (\<lambda>p. p\<lparr>available_cache := {}\<rparr>) ((points s)[i := (points s ! i)\<lparr>failed := insert v (failed (points s ! i))\<rparr>])"
  by (simp add: record_failed_def clearcache_points)

lemma grid_setpoint: "grid (setpoint s i v src) = grid s"
proof -
  have "map (\<lambda>p. (row p, col p)) ((points s)[i := (points s ! i)\<lparr>val := v, source := src\<rparr>])
        = map (\<lambda>p. (row p, col p)) (points s)"
    by (simp add: list_eq_iff_nth_eq nth_update_if)
  then show ?thesis by (simp add: grid_def setpoint_points comp_def)
qed

lemma grid_record_failed: "grid (snd (record_failed g s i v)) = grid s"
proof -
  have "map (\<lambda>p. (row p, col p)) ((points s)[i := (points s ! i)\<lparr>failed := insert v (failed (points s ! i))\<rparr>])
        = map (\<lambda>p. (row p, col p)) (points s)"
    by (simp add: list_eq_iff_nth_eq nth_update_if)
  then show ?thesis by (simp add: grid_def record_failed_points comp_def)
qed

lemma list_all_update:
  assumes "list_all P xs" and "i < length xs \<Longrightarrow> P y"
  shows "list_all P (xs[i := y])"
  using assms by (simp add: list_all_length nth_update_if)

lemma values_ok_setpoint:
  assumes "values_ok s" and "0 \<le> v" and "v \<le> 9"
  shows "values_ok (setpoint s i v src)"
proof -
  have "list_all (\<lambda>p. 0 \<le> val p \<and> val p \<le> 9) ((points s)[i := (points s ! i)\<lparr>val := v, source := src\<rparr>])"
    by (rule list_all_update) (use assms in \<open>simp_all add: values_ok_def\<close>)
  then show ?thesis by (simp add: values_ok_def setpoint_points list_all_iff)
qed

lemma values_ok_record_failed:
  assumes "values_ok s"
  shows "values_ok (snd (record_failed g s i v))"
proof -
  have "list_all (\<lambda>p. 0 \<le> val p \<and> val p \<le> 9) ((points s)[i := (points s ! i)\<lparr>failed := insert v (failed (points s ! i))\<rparr>])"
    by (rule list_all_update) (use assms in \<open>simp_all add: values_ok_def list_all_length\<close>)
  then show ?thesis by (simp add: values_ok_def record_failed_points list_all_iff)
qed

lemma failed_ok_setpoint:
  assumes "failed_ok s"
  shows "failed_ok (setpoint s i v src)"
proof -
  have "list_all (\<lambda>p. failed p \<subseteq> {1..9}) ((points s)[i := (points s ! i)\<lparr>val := v, source := src\<rparr>])"
    by (rule list_all_update) (use assms in \<open>simp_all add: failed_ok_def list_all_length\<close>)
  then show ?thesis by (simp add: failed_ok_def setpoint_points list_all_iff)
qed

lemma failed_ok_record_failed:
  assumes "failed_ok s" and "v \<in> {1..9}"
  shows "failed_ok (snd (record_failed g s i v))"
proof -
  have "list_all (\<lambda>p. failed p \<subseteq> {1..9}) ((points s)[i := (points s ! i)\<lparr>failed := insert v (failed (points s ! i))\<rparr>])"
    by (rule list_all_update) (use assms in \<open>simp_all add: failed_ok_def list_all_length\<close>)
  then show ?thesis by (simp add: failed_ok_def record_failed_points list_all_iff)
qed

lemma board_ok_setpoint:
  assumes "board_ok s" and "v \<in> {1..9}"
  shows "board_ok (setpoint s i v src)"
  using assms by (simp add: board_ok_def grid_setpoint setpoint_cache_ok values_ok_setpoint failed_ok_setpoint)

lemma board_ok_record_failed:
  assumes "board_ok s" and "v \<in> {1..9}"
  shows "board_ok (snd (record_failed g s i v))"
  using assms
  by (simp add: board_ok_def grid_record_failed record_failed_cache_ok values_ok_record_failed
      failed_ok_record_failed)

lemma consistent_record_failed: "consistent s \<Longrightarrow> consistent (snd (record_failed g s i v))"
proof -
  assume c: "consistent s"
  let ?pts = "(points s)[i := (points s ! i)\<lparr>failed := insert v (failed (points s ! i))\<rparr>]"
  show ?thesis
  proof (cases "i < length (points s)")
    case False
    then have "?pts = points s" by (simp add: list_update_beyond)
    then show ?thesis using c by (simp add: consistent_def record_failed_points list_all_iff peer_cache)
  next
    case True
    have m: "\<exists>p'\<in>set (points s). row p' = row p \<and> col p' = col p \<and> val p' = val p"
      if "p \<in> set ?pts" for p
    proof -
      from that have "p = (points s ! i)\<lparr>failed := insert v (failed (points s ! i))\<rparr> \<or> p \<in> set (points s)"
        using set_update_subset_insert[of "points s" i] by auto
      then show ?thesis using True nth_mem[OF True] by auto
    qed
    have "(row p = row q \<and> col p = col q) \<or> val p = 0 \<or> \<not> peer p q \<or> val p \<noteq> val q"
      if "p \<in> set ?pts" and "q \<in> set ?pts" for p q
    proof -
      from m[OF that(1)] obtain p' where p': "p' \<in> set (points s)" "row p' = row p" "col p' = col p" "val p' = val p" by blast
      from m[OF that(2)] obtain q' where q': "q' \<in> set (points s)" "row q' = row q" "col q' = col q" "val q' = val q" by blast
      have "(row p' = row q' \<and> col p' = col q') \<or> val p' = 0 \<or> \<not> peer p' q' \<or> val p' \<noteq> val q'"
        using c p'(1) q'(1) by (simp add: consistent_def list_all_iff)
      then show ?thesis using p' q' by (simp add: peer_def bigrow_def bigcol_def)
    qed
    then show ?thesis by (simp add: consistent_def record_failed_points list_all_iff peer_cache)
  qed
qed

section \<open>The second loop, read without its caches\<close>

lemma next_iter_chosen: "S \<noteq> {} \<Longrightarrow> next_iter ord S = Inr (chosen ord S)"
  by (simp add: next_iter_def chosen_def)

lemma chosen_mem: "finite S \<Longrightarrow> S \<noteq> {} \<Longrightarrow> chosen ord S \<in> S"
  by (simp add: chosen_def)

lemma guess_unfold:
  "guess g s use =
     (case todo_of s of [] \<Rightarrow> Inl IndexError
      | t # _ \<Rightarrow> (case guess_tag (card (failed (points s ! t))) of Inl e \<Rightarrow> Inl e
                   | Inr tag \<Rightarrow> Inr (g\<lparr>guesses := guesses g + 1\<rparr>, setpoint s t use tag)))"
proof (cases "todo_of s")
  case Nil
  then show ?thesis by (simp add: guess_def deepcopy_def first_todo_unfold)
next
  case (Cons t ts)
  have t: "t < length (points s)" using hd_todo_of(1)[of s] Cons by simp
  have "failed (points (snd (todo s)) ! t) = failed (points s ! t)"
    by (rule sim_fields(4)[OF todo_sim t])
  moreover have "setpoint (snd (todo s)) t use tag = setpoint s t use tag" for tag
    by (rule sim_setpoint[OF todo_sim])
  ultimately show ?thesis using Cons
    by (simp add: guess_def deepcopy_def first_todo_unfold split: sum.splits)
qed

lemma search_step_facts:
  assumes "todo_of s \<noteq> []"
  shows "todo s = (todo_of s, snd (todo s))"
    and "first_todo (snd (todo s)) = Inr (hd (todo_of s), snd (todo (snd (todo s))))"
    and "available (snd (todo (snd (todo s)))) (hd (todo_of s)) = (avl s (hd (todo_of s)), looked s)"
    and "sim s (looked s)"
proof -
  let ?t = "hd (todo_of s)"
  let ?s1 = "snd (todo s)" let ?s2 = "snd (todo ?s1)"
  show "todo s = (todo_of s, ?s1)" by (rule todo_pair)
  have s1: "sim s ?s1" by (rule todo_sim)
  have s2: "sim s ?s2" by (rule sim_trans[OF s1 todo_sim])
  have "todo_of ?s1 = todo_of s" by (rule sim_todo_of[OF s1])
  then show "first_todo ?s1 = Inr (?t, ?s2)"
    using assms by (cases "todo_of s") (simp_all add: first_todo_unfold)
  have t: "?t < length (points s)" by (rule hd_todo_of(1)[OF assms])
  have "avl ?s2 ?t = avl s ?t" by (rule sim_avl[OF s2 t])
  then show "available ?s2 ?t = (avl s ?t, looked s)"
    using available_pair[of ?s2 ?t] by (simp add: looked_def)
  have "?t < length (points ?s2)" using t sim_length[OF s2] by simp
  then show "sim s (looked s)" unfolding looked_def by (rule sim_trans[OF s2 available_sim])
qed

lemma search_unfold:
  "search ord ded g s level =
     (if todo_of s = [] then Inr (True, g\<lparr>stdout := stdout g @ [snd (todo s)]\<rparr>, snd (todo s))
      else if avl s (hd (todo_of s)) = {} then Inr (False, g, looked s)
      else case guess_tag (card (failed (points s ! hd (todo_of s)))) of Inl e \<Rightarrow> Inl e
        | Inr tag \<Rightarrow>
          (case solve ord ded (g\<lparr>guesses := guesses g + 1\<rparr>)
                  (setpoint s (hd (todo_of s)) (chosen ord (avl s (hd (todo_of s)))) tag) (level + 1) of
             Inl e \<Rightarrow> Inl e
           | Inr (ok, g3, n3) \<Rightarrow>
               if ok then Inr (True, g3, looked s)
               else search ord ded (g3\<lparr>fails := fails g3 + 1\<rparr>)
                      (snd (record_failed g3 s (hd (todo_of s)) (chosen ord (avl s (hd (todo_of s)))))) level))"
proof (cases "todo_of s = []")
  case True
  show ?thesis
    apply (subst search.simps)
    apply (subst todo_pair)
    apply (simp add: True)
    done
next
  case False
  note f = search_step_facts[OF False]
  let ?t = "hd (todo_of s)"
  show ?thesis
  proof (cases "avl s ?t = {}")
    case True
    show ?thesis
      apply (subst search.simps)
      apply (subst f(1))
      apply (simp add: False f(2) f(3) True)
      done
  next
    case ne: False
    let ?use = "chosen ord (avl s ?t)"
    have t: "?t < length (points s)" by (rule hd_todo_of(1)[OF False])
    have tl: "todo_of (looked s) = todo_of s" by (rule sim_todo_of[OF f(4)])
    have fl: "failed (points (looked s) ! ?t) = failed (points s ! ?t)" by (rule sim_fields(4)[OF f(4) t])
    have g: "guess g (looked s) ?use =
        (case guess_tag (card (failed (points s ! ?t))) of Inl e \<Rightarrow> Inl e
         | Inr tag \<Rightarrow> Inr (g\<lparr>guesses := guesses g + 1\<rparr>, setpoint s ?t ?use tag))"
    proof -
      obtain t ts where c: "todo_of s = t # ts" using False by (cases "todo_of s") auto
      have fl': "failed (points (looked s) ! t) = failed (points s ! t)" using fl c by simp
      show ?thesis unfolding guess_unfold tl using c by (simp add: fl' sim_setpoint[OF f(4)] cong: sum.case_cong)
    qed
    have r: "record_failed g3 (looked s) ?t ?use = (g3\<lparr>fails := fails g3 + 1\<rparr>, snd (record_failed g3 s ?t ?use))" for g3
      using sim_record_failed[OF f(4), of g3 ?t ?use] by (simp add: record_failed_def)
    show ?thesis
      apply (subst search.simps)
      apply (subst f(1))
      apply (simp add: False f(2) f(3) ne next_iter_chosen g r solve_def split: sum.splits prod.splits)
      done
  qed
qed

lemma guess_looked:
  assumes "todo_of s \<noteq> []"
    and "guess_tag (card (failed (points s ! hd (todo_of s)))) = Inr tag"
  shows "guess g (looked s) use = Inr (g\<lparr>guesses := guesses g + 1\<rparr>, setpoint s (hd (todo_of s)) use tag)"
proof -
  note f = search_step_facts[OF assms(1)]
  obtain t ts where c: "todo_of s = t # ts" using assms(1) by (cases "todo_of s") auto
  have t: "t < length (points s)" using hd_todo_of(1)[OF assms(1)] c by simp
  have "todo_of (looked s) = t # ts" using sim_todo_of[OF f(4)] c by simp
  moreover have "failed (points (looked s) ! t) = failed (points s ! t)" by (rule sim_fields(4)[OF f(4) t])
  ultimately show ?thesis using assms(2) c by (simp add: guess_unfold sim_setpoint[OF f(4)])
qed

lemma record_failed_looked:
  assumes "todo_of s \<noteq> []"
  shows "record_failed g (looked s) i v = (g\<lparr>fails := fails g + 1\<rparr>, snd (record_failed g s i v))"
  using sim_record_failed[OF search_step_facts(4)[OF assms], of g i v] by (simp add: record_failed_def)

lemma search_induct [case_names step]:
  assumes step: "\<And>ord ded g s level.
     (\<And>tag g2 n2. todo_of s \<noteq> [] \<Longrightarrow> avl s (hd (todo_of s)) \<noteq> {} \<Longrightarrow>
        guess_tag (card (failed (points s ! hd (todo_of s)))) = Inr tag \<Longrightarrow>
        solve_entry ord ded (g\<lparr>guesses := guesses g + 1\<rparr>)
          (setpoint s (hd (todo_of s)) (chosen ord (avl s (hd (todo_of s)))) tag) (level + 1) = Inr (g2, n2) \<Longrightarrow>
        P ord ded g2 n2 (level + 1)) \<Longrightarrow>
     (\<And>tag g3 n3. todo_of s \<noteq> [] \<Longrightarrow> avl s (hd (todo_of s)) \<noteq> {} \<Longrightarrow>
        guess_tag (card (failed (points s ! hd (todo_of s)))) = Inr tag \<Longrightarrow>
        solve ord ded (g\<lparr>guesses := guesses g + 1\<rparr>)
          (setpoint s (hd (todo_of s)) (chosen ord (avl s (hd (todo_of s)))) tag) (level + 1) = Inr (False, g3, n3) \<Longrightarrow>
        P ord ded (g3\<lparr>fails := fails g3 + 1\<rparr>)
          (snd (record_failed g3 s (hd (todo_of s)) (chosen ord (avl s (hd (todo_of s)))))) level) \<Longrightarrow>
     P ord ded g s level"
  shows "P ord ded g s level"
proof (induction ord ded g s level rule: search.induct)
  case (1 ord ded g s level)
  let ?t = "hd (todo_of s)"
  let ?use = "chosen ord (avl s ?t)"
  show ?case
  proof (rule step)
    fix tag g2 n2
    assume ne: "todo_of s \<noteq> []" and av: "avl s ?t \<noteq> {}"
      and tag: "guess_tag (card (failed (points s ! ?t))) = Inr tag"
      and se: "solve_entry ord ded (g\<lparr>guesses := guesses g + 1\<rparr>) (setpoint s ?t ?use tag) (level + 1) = Inr (g2, n2)"
    note f = search_step_facts[OF ne]
    show "P ord ded g2 n2 (level + 1)"
      by (rule "1.IH"(1)[OF f(1)[symmetric] ne f(2) refl f(3)[symmetric] av next_iter_chosen[OF av]
            guess_looked[OF ne tag] refl se refl])
  next
    fix tag g3 n3
    assume ne: "todo_of s \<noteq> []" and av: "avl s ?t \<noteq> {}"
      and tag: "guess_tag (card (failed (points s ! ?t))) = Inr tag"
      and so: "solve ord ded (g\<lparr>guesses := guesses g + 1\<rparr>) (setpoint s ?t ?use tag) (level + 1) = Inr (False, g3, n3)"
    note f = search_step_facts[OF ne]
    from so obtain g2 n2 where
      se: "solve_entry ord ded (g\<lparr>guesses := guesses g + 1\<rparr>) (setpoint s ?t ?use tag) (level + 1) = Inr (g2, n2)"
      and sr: "search ord ded g2 n2 (level + 1) = Inr (False, g3, n3)"
      by (auto simp: solve_def split: sum.splits)
    have nf: "\<not> False" by simp
    show "P ord ded (g3\<lparr>fails := fails g3 + 1\<rparr>) (snd (record_failed g3 s ?t ?use)) level"
      by (rule "1.IH"(2)[OF f(1)[symmetric] ne f(2) refl f(3)[symmetric] av next_iter_chosen[OF av]
            guess_looked[OF ne tag] refl se refl sr refl refl nf record_failed_looked[OF ne, symmetric]])
  qed
qed

section \<open>What the first loop keeps\<close>

lemma length_filter_sum: "length (filter P xs) = sum_list (map (\<lambda>x. if P x then 1 else 0) xs)"
  by (induction xs) simp_all

lemma unset_count_clearcache: "unset_count (clearcache s) = unset_count s"
  by (simp add: unset_count_def clearcache_points filter_map comp_def)

lemma sim_unset_count: "sim s s' \<Longrightarrow> unset_count s' = unset_count s"
  using unset_count_clearcache[of s] unset_count_clearcache[of s'] sim_cc[of s s'] by simp

lemma unset_count_setpoint:
  assumes "i < length (points s)" and "val (points s ! i) = 0" and "v \<noteq> 0"
  shows "Suc (unset_count (setpoint s i v src)) = unset_count s"
proof -
  let ?f = "\<lambda>p. if val p = 0 then 1 else 0 :: nat"
  have "unset_count (setpoint s i v src)
        = sum_list (map ?f ((points s)[i := (points s ! i)\<lparr>val := v, source := src\<rparr>]))"
    by (simp add: unset_count_def setpoint_points filter_map comp_def length_filter_sum)
  also have "\<dots> = sum_list ((map ?f (points s))[i := 0])"
    using assms(3) by (simp add: map_update)
  also have "\<dots> = sum_list (map ?f (points s)) - 1"
    using assms(1,2) by (simp add: sum_list_update)
  finally have "unset_count (setpoint s i v src) = unset_count s - 1"
    by (simp add: unset_count_def length_filter_sum)
  moreover have "1 \<le> unset_count s"
  proof -
    have "map ?f (points s) ! i \<in> set (map ?f (points s))"
      by (rule nth_mem) (simp add: assms(1))
    then have "map ?f (points s) ! i \<le> sum_list (map ?f (points s))"
      by (rule member_le_sum_list) simp
    then show ?thesis using assms(1,2) by (simp add: unset_count_def length_filter_sum)
  qed
  ultimately show ?thesis by simp
qed

lemma unset_count_record_failed: "unset_count (snd (record_failed g s i v)) = unset_count s"
proof (cases "i < length (points s)")
  case True
  let ?f = "\<lambda>p. if val p = 0 then 1 else 0 :: nat"
  have "map ?f ((points s)[i := (points s ! i)\<lparr>failed := insert v (failed (points s ! i))\<rparr>]) = map ?f (points s)"
    by (simp add: list_eq_iff_nth_eq nth_update_if)
  then show ?thesis
    by (simp add: unset_count_def record_failed_points filter_map comp_def length_filter_sum)
next
  case False
  then show ?thesis
    by (simp add: unset_count_def record_failed_points filter_map comp_def list_update_beyond)
qed

lemma unset_count_le: "unset_count s \<le> length (points s)"
  by (simp add: unset_count_def)

lemma consistent_setpoint:
  assumes c: "consistent s" and i: "i < length (points s)" and v: "v \<in> fresh s (points s ! i)"
  shows "consistent (setpoint s i v src)"
proof -
  let ?pi = "points s ! i"
  let ?y = "?pi\<lparr>val := v, source := src\<rparr>"
  let ?pts = "(points s)[i := ?y]"
  let ?ok = "\<lambda>p q. (row p = row q \<and> col p = col q) \<or> val p = 0 \<or> \<not> peer p q \<or> val p \<noteq> val q"
  have nz: "v \<noteq> 0" using v by (auto simp: fresh_def)
  have clash: "val q \<noteq> v" if "q \<in> set (points s)" and "peer ?pi q" for q
  proof
    assume e: "val q = v"
    then have "val q \<noteq> 0" using nz by simp
    then have "v \<in> onrow s ?pi \<or> v \<in> oncol s ?pi \<or> v \<in> in3x3 s ?pi"
      using that e unfolding peer_def onrow_def oncol_def in3x3_def by force
    then show False using v by (auto simp: fresh_def used_def)
  qed
  have sym: "peer p q = peer q p" for p q by (auto simp: peer_def)
  have "?ok p q" if "p \<in> set ?pts" and "q \<in> set ?pts" for p q
  proof -
    have p: "p = ?y \<or> p \<in> set (points s)" and q: "q = ?y \<or> q \<in> set (points s)"
      using that set_update_subset_insert[of "points s" i ?y] by auto
    have py: "peer ?y r = peer ?pi r" "peer r ?y = peer r ?pi" for r
      by (simp_all add: peer_def bigrow_def bigcol_def)
    consider "p = ?y" "q = ?y" | "p = ?y" "q \<in> set (points s)" | "p \<in> set (points s)" "q = ?y"
      | "p \<in> set (points s)" "q \<in> set (points s)" using p q by blast
    then show ?thesis
    proof cases
      case 1
      then show ?thesis by simp
    next
      case 2
      then show ?thesis using clash[of q] py by auto
    next
      case 3
      then show ?thesis using clash[of p] py sym[of ?pi p] by auto
    next
      case 4
      then show ?thesis using c by (simp add: consistent_def list_all_iff)
    qed
  qed
  then show ?thesis by (simp add: consistent_def setpoint_points list_all_iff peer_cache)
qed

lemma sim_known_test:
  assumes "sim s s'"
  shows "known_test ded s' = known_test ded s"
proof (cases "todo_of s = []")
  case True
  then show ?thesis by (simp add: known_test_def sim_todo_of[OF assms])
next
  case False
  have "avl s' (hd (todo_of s)) = avl s (hd (todo_of s))"
    by (rule sim_avl[OF assms hd_todo_of(1)[OF False]])
  then show ?thesis by (simp add: known_test_def sim_todo_of[OF assms] sim_deduced_of[OF assms])
qed

lemma known_cond_spec:
  assumes pd: "pos_distinct s"
  shows "\<exists>s'. known_cond ded s = Inr (known_test ded s, s') \<and> sim s s'"
proof (cases "todo_of s = []")
  case True
  have "known_cond ded s = Inr (False, snd (todo s))"
    unfolding known_cond_def by (subst todo_pair) (simp add: True)
  then show ?thesis using True todo_sim by (auto simp: known_test_def)
next
  case False
  note f = search_step_facts[OF False]
  let ?t = "hd (todo_of s)"
  have pdl: "pos_distinct (looked s)" using sim_pos_distinct[OF f(4)] pd by simp
  have d: "fst (deduced (looked s)) = deduced_of s"
    using deduced_spec[OF pdl] sim_deduced_of[OF f(4)] by simp
  have sd: "sim s (snd (deduced (looked s)))" by (rule sim_trans[OF f(4) deduced_weak(1)])
  have "known_cond ded s =
          (if card (avl s ?t) = 1 then Inr (True, looked s)
           else if ded then Inr (deduced_of s \<noteq> [], snd (deduced (looked s)))
           else Inr (False, looked s))"
    unfolding known_cond_def
    apply (subst f(1))
    apply (simp add: False f(2) f(3) split_beta d)
    done
  then show ?thesis using False f(4) sd by (auto simp: known_test_def)
qed

lemma known_step_total:
  assumes pd: "pos_distinct s" and kt: "known_test ded s"
  shows "\<exists>g' s'. known_step ord g s = Inr (g', s')"
proof -
  have ne: "todo_of s \<noteq> []" using kt by (simp add: known_test_def)
  let ?t = "hd (todo_of s)"
  let ?s1 = "snd (todo s)"
  let ?s2 = "snd (available ?s1 ?t)"
  have ft: "first_todo s = Inr (?t, ?s1)" using ne by (cases "todo_of s") (simp_all add: first_todo_unfold)
  have t: "?t < length (points s)" by (rule hd_todo_of(1)[OF ne])
  have s1: "sim s ?s1" by (rule todo_sim)
  have t1: "?t < length (points ?s1)" using t sim_length[OF s1] by simp
  have s2: "sim s ?s2" by (rule sim_trans[OF s1 available_sim[OF t1]])
  have a1: "avl ?s1 ?t = avl s ?t" by (rule sim_avl[OF s1 t])
  show ?thesis
  proof (cases "card (avl s ?t) = 1")
    case True
    let ?s3 = "snd (todo ?s2)"
    have ft2: "first_todo ?s2 = Inr (?t, ?s3)"
      using ne sim_todo_of[OF s2] by (cases "todo_of s") (simp_all add: first_todo_unfold)
    have s3: "sim s ?s3" by (rule sim_trans[OF s2 todo_sim])
    have a3: "avl ?s3 ?t = avl s ?t" by (rule sim_avl[OF s3 t])
    have "avl s ?t \<noteq> {}" using True by auto
    then obtain v where "next_iter ord (avl s ?t) = Inr v" using next_iter_nonempty by blast
    then show ?thesis
      unfolding known_step_def using True by (simp add: ft split_beta available_fst a1 ft2 a3)
  next
    case False
    then have dne: "deduced_of s \<noteq> []" using kt by (simp add: known_test_def)
    then obtain d ds where dd: "deduced_of s = d # ds" by (cases "deduced_of s") auto
    have pd2: "pos_distinct ?s2" using sim_pos_distinct[OF s2] pd by simp
    have d2: "fst (deduced ?s2) = d # ds" using deduced_spec[OF pd2] sim_deduced_of[OF s2] dd by simp
    let ?s3 = "snd (deduced ?s2)"
    have s3: "sim s ?s3" by (rule sim_trans[OF s2 deduced_weak(1)])
    have "d \<in> set (deduced_of s)" using dd by simp
    then have dl: "d < length (points s)" and dn: "deduce_of s d \<noteq> {}"
      by (auto simp: deduced_of_def)
    have d3: "d < length (points ?s3)" using dl sim_length[OF s3] by simp
    have "fst (deduce ?s3 d) = deduce_of s d"
      using deduce_spec[OF _ d3] sim_pos_distinct[OF s3] pd sim_deduce_of[OF s3 dl] by simp
    then have "fst (deduce ?s3 d) \<noteq> {}" using dn by simp
    then obtain v where "next_iter ord (fst (deduce ?s3 d)) = Inr v" using next_iter_nonempty by blast
    then show ?thesis
      unfolding known_step_def using False by (simp add: ft split_beta available_fst a1 d2)
  qed
qed

lemma known_step_globals:
  assumes "known_step ord g s = Inr (g', s')"
  shows "maxlevel g' = maxlevel g" and "stdout g' = stdout g" and "guesses g' = guesses g"
    and "fails g' = fails g"
  using assms
  by (auto simp: known_step_def split: sum.splits prod.splits if_splits list.splits)

lemma board_ok_pos_distinct: "board_ok s \<Longrightarrow> pos_distinct s"
  by (simp add: board_ok_def grid_pos_distinct)

lemma board_ok_cache_ok: "board_ok s \<Longrightarrow> cache_ok s"
  by (simp add: board_ok_def)

lemma known_step_props:
  assumes ks: "known_step ord g s = Inr (g', s')" and ok: "board_ok s"
  shows "board_ok s'" and "consistent s \<Longrightarrow> consistent s'" and "Suc (unset_count s') = unset_count s"
proof -
  from known_step_weak[OF ks] obtain t v src where
    s': "s' = setpoint s t v src" and t: "t < length (points s)" and tv: "val (points s ! t) = 0"
    and v: "v \<in> avl s t" by blast
  have a: "avl s t = fresh s (points s ! t)" by (rule cache_ok_avl[OF board_ok_cache_ok[OF ok] t tv])
  have v19: "v \<in> {1..9}" using v a fresh_range by blast
  show "board_ok s'" unfolding s' by (rule board_ok_setpoint[OF ok v19])
  show "consistent s'" if "consistent s"
    unfolding s' using that t v a by (simp add: consistent_setpoint)
  have "v \<noteq> 0" using v19 by auto
  then show "Suc (unset_count s') = unset_count s" unfolding s' by (rule unset_count_setpoint[OF t tv])
qed

lemma known_values_props:
  assumes "board_ok s"
  shows "\<exists>g' s'. known_values ord ded g s = Inr (g', s') \<and> board_ok s' \<and>
           (consistent s \<longrightarrow> consistent s') \<and> maxlevel g' = maxlevel g \<and> stdout g' = stdout g \<and>
           unset_count s' \<le> unset_count s"
  using assms
proof (induction ord ded g s rule: known_values.induct)
  case (1 ord ded g s)
  from known_cond_spec[OF board_ok_pos_distinct[OF "1.prems"], of ded] obtain s1 where
    kc: "known_cond ded s = Inr (known_test ded s, s1)" and s1: "sim s s1" by blast
  have ok1: "board_ok s1" using sim_board_ok[OF s1] "1.prems" by simp
  show ?case
  proof (cases "known_test ded s")
    case False
    have "known_values ord ded g s = Inr (g, s1)"
      by (subst known_values_unfold) (simp add: kc False)
    then show ?thesis using ok1 sim_consistent[OF s1] sim_unset_count[OF s1] by simp
  next
    case True
    have kt1: "known_test ded s1" using sim_known_test[OF s1] True by simp
    from known_step_total[OF board_ok_pos_distinct[OF ok1] kt1, of ord g] obtain g1 s2 where
      ks: "known_step ord g s1 = Inr (g1, s2)" by blast
    note p = known_step_props[OF ks ok1]
    note gl = known_step_globals[OF ks]
    from "1.IH"[OF kc refl True ks refl p(1)] obtain g' s' where
      r: "known_values ord ded g1 s2 = Inr (g', s')" "board_ok s'" "consistent s2 \<longrightarrow> consistent s'"
        "maxlevel g' = maxlevel g1" "stdout g' = stdout g1" "unset_count s' \<le> unset_count s2"
      by blast
    have "known_values ord ded g s = Inr (g', s')"
      by (subst known_values_unfold) (simp add: kc True ks r(1))
    moreover have "consistent s \<longrightarrow> consistent s'" using r(3) p(2) sim_consistent[OF s1] by simp
    moreover have "unset_count s' \<le> unset_count s" using r(6) p(3) sim_unset_count[OF s1] by simp
    ultimately show ?thesis using r(2,4,5) gl by simp
  qed
qed

lemma solve_entry_props:
  assumes "board_ok s"
  shows "\<exists>g' s'. solve_entry ord ded g s level = Inr (g', s') \<and> board_ok s' \<and>
           (consistent s \<longrightarrow> consistent s') \<and> maxlevel g' = max (maxlevel g) level \<and>
           stdout g' = stdout g \<and> unset_count s' \<le> unset_count s"
  using known_values_props[OF assms, of ord ded "g\<lparr>maxlevel := max (maxlevel g) level\<rparr>"]
  by (simp add: solve_entry_def)

section \<open>What a call of solve returns\<close>

lemma unset_cells_count: "length (unset_cells s) = unset_count s"
proof -
  have "length (unset_cells s) = card {i. i < length (points s) \<and> val (points s ! i) = 0}"
    unfolding unset_cells_def length_filter_conv_card by (rule arg_cong[of _ _ card]) auto
  then show ?thesis by (simp add: unset_count_def length_filter_conv_card)
qed

lemma todo_of_Nil: "todo_of s = [] \<longleftrightarrow> unset_count s = 0"
proof -
  have "length (todo_of s) = unset_count s" by (simp add: todo_of_def unset_cells_count)
  then show ?thesis by (metis length_0_conv)
qed

lemma guess_tag_ok:
  assumes "F \<subseteq> {1..9::int}"
  shows "\<exists>tag. guess_tag (card F) = Inr tag"
proof -
  have "card F \<le> card {1..9::int}" by (rule card_mono) (use assms in auto)
  then show ?thesis by (simp add: guess_tag_def)
qed

lemma board_ok_failed:
  "board_ok s \<Longrightarrow> i < length (points s) \<Longrightarrow> failed (points s ! i) \<subseteq> {1..9}"
  by (simp add: board_ok_def failed_ok_def list_all_length)

lemma search_props:
  "board_ok s \<Longrightarrow> \<exists>r. search ord ded g s level = Inr r \<and> outcome_ok g s level r"
proof (induction ord ded g s level rule: search_induct)
  case (step ord ded g s level)
  note ok = \<open>board_ok s\<close>
  let ?t = "hd (todo_of s)"
  let ?use = "chosen ord (avl s ?t)"
  show ?case
  proof (cases "todo_of s = []")
    case True
    let ?b = "snd (todo s)"
    have sb: "sim s ?b" by (rule todo_sim)
    have "board_ok ?b" using sim_board_ok[OF sb] ok by simp
    moreover have "unset_count ?b = 0" using sim_unset_count[OF sb] True todo_of_Nil by simp
    moreover have "consistent s \<longrightarrow> consistent ?b" using sim_consistent[OF sb] by simp
    ultimately have "outcome_ok g s level (True, g\<lparr>stdout := stdout g @ [?b]\<rparr>, ?b)"
      by (auto simp: outcome_ok_def)
    moreover have "search ord ded g s level = Inr (True, g\<lparr>stdout := stdout g @ [?b]\<rparr>, ?b)"
      by (subst search_unfold) (simp add: True)
    ultimately show ?thesis by blast
  next
    case ne: False
    have t: "?t < length (points s)" and tv: "val (points s ! ?t) = 0" by (rule hd_todo_of[OF ne])+
    have k: "1 \<le> unset_count s" using ne todo_of_Nil[of s] by simp
    show ?thesis
    proof (cases "avl s ?t = {}")
      case True
      have "search ord ded g s level = Inr (False, g, looked s)"
        by (subst search_unfold) (simp add: ne True)
      moreover have "outcome_ok g s level (False, g, looked s)" by (simp add: outcome_ok_def)
      ultimately show ?thesis by blast
    next
      case av: False
      note r = cache_ok_avl_range[OF board_ok_cache_ok[OF ok] t tv]
      have um: "?use \<in> avl s ?t" by (rule chosen_mem[OF r(2) av])
      have u19: "?use \<in> {1..9}" using um r(1) by blast
      have unz: "?use \<noteq> 0" using u19 by auto
      have ufr: "?use \<in> fresh s (points s ! ?t)"
        using um cache_ok_avl[OF board_ok_cache_ok[OF ok] t tv] by simp
      from guess_tag_ok[OF board_ok_failed[OF ok t]] obtain tag where
        tag: "guess_tag (card (failed (points s ! ?t))) = Inr tag" by blast
      let ?g1 = "g\<lparr>guesses := guesses g + 1\<rparr>"
      let ?n = "setpoint s ?t ?use tag"
      have okn: "board_ok ?n" by (rule board_ok_setpoint[OF ok u19])
      have cn: "consistent s \<longrightarrow> consistent ?n" using consistent_setpoint[OF _ t ufr] by simp
      have un: "Suc (unset_count ?n) = unset_count s" by (rule unset_count_setpoint[OF t tv unz])
      from solve_entry_props[OF okn, of ord ded ?g1 "level + 1"] obtain g2 n2 where
        se: "solve_entry ord ded ?g1 ?n (level + 1) = Inr (g2, n2)" and ok2: "board_ok n2"
        and c2: "consistent ?n \<longrightarrow> consistent n2" and m2: "maxlevel g2 = max (maxlevel ?g1) (level + 1)"
        and o2: "stdout g2 = stdout ?g1" and u2: "unset_count n2 \<le> unset_count ?n"
        by blast
      from step.IH(1)[OF ne av tag se ok2] obtain r1 where
        sr: "search ord ded g2 n2 (level + 1) = Inr r1" and or1: "outcome_ok g2 n2 (level + 1) r1"
        by blast
      obtain ok1 g3 n3 where r1: "r1 = (ok1, g3, n3)" by (cases r1) auto
      have so: "solve ord ded ?g1 ?n (level + 1) = Inr (ok1, g3, n3)"
        using se sr r1 by (simp add: solve_def)
      have m3: "maxlevel g3 \<le> max (maxlevel g) (level + int (unset_count s))"
        using or1 r1 m2 u2 un by (auto simp: outcome_ok_def)
      show ?thesis
      proof (cases ok1)
        case True
        have "search ord ded g s level = Inr (True, g3, looked s)"
          by (subst search_unfold) (simp add: ne av tag so True)
        moreover have "outcome_ok g s level (True, g3, looked s)"
          using or1 r1 True m3 o2 c2 cn by (auto simp: outcome_ok_def)
        ultimately show ?thesis by blast
      next
        case False
        let ?g4 = "g3\<lparr>fails := fails g3 + 1\<rparr>"
        let ?s4 = "snd (record_failed g3 s ?t ?use)"
        have o3: "stdout g3 = stdout g" using or1 r1 False o2 by (simp add: outcome_ok_def)
        have ok4: "board_ok ?s4" by (rule board_ok_record_failed[OF ok u19])
        have so': "solve ord ded ?g1 ?n (level + 1) = Inr (False, g3, n3)" using so False by simp
        from step.IH(2)[OF ne av tag so' ok4] obtain r2 where
          s2: "search ord ded ?g4 ?s4 level = Inr r2" and or2: "outcome_ok ?g4 ?s4 level r2"
          by blast
        have "search ord ded g s level = Inr r2"
          by (subst search_unfold) (simp add: ne av tag so False s2)
        moreover have "outcome_ok g s level r2"
          using or2 m3 o3 unset_count_record_failed[of g3 s ?t ?use] consistent_record_failed[of s g3 ?t ?use]
          by (auto simp: outcome_ok_def split: if_splits)
        ultimately show ?thesis by blast
      qed
    qed
  qed
qed

lemma solve_props:
  assumes "board_ok s"
  shows "\<exists>r. solve ord ded g s level = Inr r \<and> outcome_ok g s level r"
proof -
  from solve_entry_props[OF assms, of ord ded g level] obtain g1 s1 where
    se: "solve_entry ord ded g s level = Inr (g1, s1)" and ok1: "board_ok s1"
    and c1: "consistent s \<longrightarrow> consistent s1" and m1: "maxlevel g1 = max (maxlevel g) level"
    and o1: "stdout g1 = stdout g" and u1: "unset_count s1 \<le> unset_count s"
    by blast
  from search_props[OF ok1, of ord ded g1 level] obtain r where
    sr: "search ord ded g1 s1 level = Inr r" and orr: "outcome_ok g1 s1 level r" by blast
  have "solve ord ded g s level = Inr r" using se sr by (simp add: solve_def)
  moreover have "outcome_ok g s level r"
    using orr c1 m1 o1 u1 by (auto simp: outcome_ok_def split: if_splits)
  ultimately show ?thesis by blast
qed

section \<open>A full consistent board is solved\<close>

lemma unit_complete:
  fixes f :: "nat \<Rightarrow> int"
  assumes "card I = 9" and "inj_on f I" and "f ` I \<subseteq> {1..9}" and "v \<in> {1..9}"
  shows "card {i \<in> I. f i = v} = 1"
proof -
  have "card (f ` I) = 9" using assms(1,2) by (simp add: card_image)
  then have "f ` I = {1..9}" using assms(3) by (intro card_subset_eq) simp_all
  then obtain i where i: "i \<in> I" "f i = v" using assms(4) by (metis imageE)
  have "{i \<in> I. f i = v} = {i}" using i assms(2) by (auto dest: inj_onD)
  then show ?thesis by simp
qed

lemma rows_have_9: "list_all (\<lambda>r. length (filter (\<lambda>i. i div 9 = r) [0..<81]) = 9) [0..<9]"
  by code_simp

lemma cols_have_9: "list_all (\<lambda>c. length (filter (\<lambda>i. i mod 9 = c) [0..<81]) = 9) [0..<9]"
  by code_simp

lemma blocks_have_9:
  "list_all (\<lambda>br. list_all (\<lambda>bc. length (filter (\<lambda>i. i div 9 div 3 = br \<and> i mod 9 div 3 = bc) [0..<81]) = 9) [0..<3]) [0..<3]"
  by code_simp

lemma card_index_set: "card {i. i < n \<and> P i} = length (filter P [0..<n])"
proof -
  have "{i. i < n \<and> P i} = set (filter P [0..<n])" by auto
  moreover have "card (set (filter P [0..<n])) = length (filter P [0..<n])"
    by (rule distinct_card) simp
  ultimately show ?thesis by (simp only:)
qed

lemma unset_count_0: "unset_count b = 0 \<Longrightarrow> p \<in> set (points b) \<Longrightarrow> val p \<noteq> 0"
  by (auto simp: unset_count_def filter_empty_conv)

lemma unit_once:
  assumes g: "grid b" and vo: "values_ok b" and u: "unset_count b = 0" and c: "consistent b"
    and U_peer: "\<And>p q. U p \<Longrightarrow> U q \<Longrightarrow> peer p q"
    and U_card: "card {i. i < 81 \<and> U (points b ! i)} = 9"
    and v: "v \<in> {1..9}"
  shows "length (filter (\<lambda>p. U p \<and> val p = v) (points b)) = 1"
proof -
  let ?I = "{i. i < 81 \<and> U (points b ! i)}"
  let ?f = "\<lambda>i. val (points b ! i)"
  have l: "length (points b) = 81" by (rule grid_length[OF g])
  have pd: "pos_distinct b" by (rule grid_pos_distinct[OF g])
  have inj: "inj_on ?f ?I"
  proof (rule inj_onI)
    fix i j assume i: "i \<in> ?I" and j: "j \<in> ?I" and e: "?f i = ?f j"
    show "i = j"
    proof (rule ccontr)
      assume n: "i \<noteq> j"
      let ?p = "points b ! i" and ?q = "points b ! j"
      have mem: "?p \<in> set (points b)" "?q \<in> set (points b)" using i j l by simp_all
      have "(row ?p = row ?q \<and> col ?p = col ?q) \<or> val ?p = 0 \<or> \<not> peer ?p ?q \<or> val ?p \<noteq> val ?q"
        using c mem by (simp add: consistent_def list_all_iff)
      moreover have "\<not> (row ?p = row ?q \<and> col ?p = col ?q)"
        using pos_distinct_rowcol[OF pd _ _ n] i j l by auto
      moreover have "val ?p \<noteq> 0" by (rule unset_count_0[OF u mem(1)])
      moreover have "peer ?p ?q" using U_peer i j by simp
      ultimately show False using e by simp
    qed
  qed
  have rng: "?f ` ?I \<subseteq> {1..9}"
  proof
    fix x assume "x \<in> ?f ` ?I"
    then obtain i where i: "i < 81" "x = val (points b ! i)" by auto
    have mem: "points b ! i \<in> set (points b)" using i l by simp
    have "0 \<le> x \<and> x \<le> 9" using vo mem i by (simp add: values_ok_def list_all_iff)
    moreover have "x \<noteq> 0" using unset_count_0[OF u mem] i by simp
    ultimately show "x \<in> {1..9}" by simp
  qed
  have "length (filter (\<lambda>p. U p \<and> val p = v) (points b)) = card {i \<in> ?I. ?f i = v}"
    unfolding length_filter_conv_card l by (rule arg_cong[of _ _ card]) auto
  then show ?thesis using unit_complete[OF U_card inj rng v] by simp
qed

lemma board_solved:
  assumes ok: "board_ok b" and u: "unset_count b = 0" and c: "consistent b"
  shows "solved b"
proof -
  have g: "grid b" and vo: "values_ok b" using ok by (simp_all add: board_ok_def)
  have l: "length (points b) = 81" by (rule grid_length[OF g])
  have all: "list_all (\<lambda>p. 1 \<le> val p \<and> val p \<le> 9) (points b)"
    unfolding list_all_iff
  proof
    fix p assume p: "p \<in> set (points b)"
    have "0 \<le> val p \<and> val p \<le> 9" using vo p by (simp add: values_ok_def list_all_iff)
    then show "1 \<le> val p \<and> val p \<le> 9" using unset_count_0[OF u p] by simp
  qed
  have rows: "length (filter (\<lambda>p. row p = r \<and> val p = v) (points b)) = 1"
    if "r \<in> {0..<9}" and "v \<in> {1..9}" for r v
  proof (rule unit_once[OF g vo u c _ _ that(2)])
    show "peer p q" if "row p = r" "row q = r" for p q using that by (simp add: peer_def)
    have "{i. i < 81 \<and> row (points b ! i) = r} = {i. i < 81 \<and> i div 9 = r}"
      using grid_nth(1)[OF g] by auto
    then show "card {i. i < 81 \<and> row (points b ! i) = r} = 9"
      using rows_have_9 that(1) by (simp add: card_index_set list_all_iff del: upt_Suc)
  qed
  have cols: "length (filter (\<lambda>p. col p = k \<and> val p = v) (points b)) = 1"
    if "k \<in> {0..<9}" and "v \<in> {1..9}" for k v
  proof (rule unit_once[OF g vo u c _ _ that(2)])
    show "peer p q" if "col p = k" "col q = k" for p q using that by (simp add: peer_def)
    have "{i. i < 81 \<and> col (points b ! i) = k} = {i. i < 81 \<and> i mod 9 = k}"
      using grid_nth(2)[OF g] by auto
    then show "card {i. i < 81 \<and> col (points b ! i) = k} = 9"
      using cols_have_9 that(1) by (simp add: card_index_set list_all_iff del: upt_Suc)
  qed
  have blocks: "length (filter (\<lambda>p. bigrow p = br \<and> bigcol p = bc \<and> val p = v) (points b)) = 1"
    if "br \<in> {0..<3}" and "bc \<in> {0..<3}" and "v \<in> {1..9}" for br bc v
  proof -
    have "length (filter (\<lambda>p. (bigrow p = br \<and> bigcol p = bc) \<and> val p = v) (points b)) = 1"
    proof (rule unit_once[OF g vo u c _ _ that(3)])
      show "peer p q" if "bigrow p = br \<and> bigcol p = bc" "bigrow q = br \<and> bigcol q = bc" for p q
        using that by (simp add: peer_def)
      have "{i. i < 81 \<and> (bigrow (points b ! i) = br \<and> bigcol (points b ! i) = bc)}
            = {i. i < 81 \<and> (i div 9 div 3 = br \<and> i mod 9 div 3 = bc)}"
        using grid_nth[OF g] by (auto simp: bigrow_def bigcol_def)
      then show "card {i. i < 81 \<and> (bigrow (points b ! i) = br \<and> bigcol (points b ! i) = bc)} = 9"
        using blocks_have_9 that(1,2) by (simp add: card_index_set list_all_iff del: upt_Suc)
    qed
    then show ?thesis by (simp add: conj_assoc)
  qed
  show ?thesis unfolding solved_def using l all rows cols blocks by blast
qed

section \<open>Operations and reachable boards\<close>

lemma cell_value_range: "0 \<le> cell_value c \<and> cell_value c \<le> 9"
  by (simp add: cell_value_def)

lemma Sudoku_board_ok: "board_ok (Sudoku sp nm)"
proof -
  let ?s = "Sudoku sp nm"
  have l: "length (points ?s) = 81" by (rule Sudoku_length)
  have g: "grid ?s"
    unfolding grid_def by (rule nth_equalityI) (simp_all add: l Sudoku_nth del: upt_Suc)
  have c: "cache_ok ?s"
    unfolding cache_ok_def list_all_length l by (simp add: Sudoku_nth)
  have v: "values_ok ?s"
    unfolding values_ok_def list_all_length l using cell_value_range by (simp add: Sudoku_nth)
  have f: "failed_ok ?s"
    unfolding failed_ok_def list_all_length l by (simp add: Sudoku_nth)
  show ?thesis using g c v f by (simp add: board_ok_def)
qed

lemma board_op_cases_sim:
  assumes "board_op s s'"
  shows "sim s s' \<or> (\<exists>i v src. s' = setpoint s i v src) \<or> (\<exists>g i v. s' = snd (record_failed g s i v))"
  using assms
proof cases
  case (op_available i)
  then show ?thesis using available_sim by blast
next
  case (op_deduce i)
  then show ?thesis using deduce_weak(1) by blast
next
  case op_deduced
  then show ?thesis using deduced_weak(1) by blast
next
  case op_todo
  then show ?thesis using todo_sim by blast
next
  case (op_setpoint i v src)
  then show ?thesis by blast
next
  case (op_failed i g v)
  then show ?thesis by blast
next
  case op_deepcopy
  then show ?thesis by (simp add: deepcopy_def sim_refl)
qed

lemma board_op_cache_ok:
  assumes "board_op s s'" and "cache_ok s"
  shows "cache_ok s'"
  using board_op_cases_sim[OF assms(1)] assms(2) sim_cache_ok setpoint_cache_ok record_failed_cache_ok
  by blast

lemma reachable_cache_ok: "reachable s \<Longrightarrow> cache_ok s"
proof (induction rule: reachable.induct)
  case (reach_new sp nm)
  show ?case using Sudoku_board_ok by (simp add: board_ok_def)
next
  case (reach_op s s')
  then show ?case using board_op_cache_ok by blast
qed

lemma fresh_explicit:
  "fresh s p =
     {1..9} - ({val q |q. q \<in> set (points s) \<and> val q \<noteq> 0 \<and> row q = row p}
             \<union> {val q |q. q \<in> set (points s) \<and> val q \<noteq> 0 \<and> col q = col p}
             \<union> {val q |q. q \<in> set (points s) \<and> val q \<noteq> 0 \<and> row q div 3 = row p div 3 \<and> col q div 3 = col p div 3}
             \<union> failed p)"
proof -
  have "{1, 2, 3, 4, 5, 6, 7, 8, 9} = {1..9::int}" by auto
  then show ?thesis
    unfolding fresh_def used_def onrow_def oncol_def in3x3_def bigrow_def bigcol_def by auto
qed

lemma clearcache_all_empty: "p \<in> set (points (clearcache s)) \<Longrightarrow> available_cache p = {}"
  by (auto simp: clearcache_points)

lemma setpoint_all_empty: "p \<in> set (points (setpoint s i v src)) \<Longrightarrow> available_cache p = {}"
  unfolding setpoint_def by (rule clearcache_all_empty)

lemma record_failed_all_empty: "p \<in> set (points (snd (record_failed g s i v))) \<Longrightarrow> available_cache p = {}"
  unfolding record_failed_def snd_conv by (rule clearcache_all_empty)

text \<open>A value that failed at a cell stays failed.\<close>

lemma length_setpoint: "length (points (setpoint s i v src)) = length (points s)"
  by (simp add: setpoint_points)

lemma length_record_failed: "length (points (snd (record_failed g s i v))) = length (points s)"
  by (simp add: record_failed_points)

lemma failed_setpoint:
  "j < length (points s) \<Longrightarrow> failed (points (setpoint s i v src) ! j) = failed (points s ! j)"
  by (simp add: setpoint_points nth_update_if)

lemma failed_record_failed:
  "j < length (points s) \<Longrightarrow>
     failed (points (snd (record_failed g s i v)) ! j)
       = (if j = i then insert v (failed (points s ! j)) else failed (points s ! j))"
  by (simp add: record_failed_points nth_update_if)

lemma val_record_failed:
  "j < length (points s) \<Longrightarrow> val (points (snd (record_failed g s i v)) ! j) = val (points s ! j)"
  by (simp add: record_failed_points nth_update_if)

lemma board_op_keeps_failed:
  assumes "board_op s s'" and "i < length (points s)" and "v \<in> failed (points s ! i)"
  shows "length (points s') = length (points s) \<and> v \<in> failed (points s' ! i)"
  using board_op_cases_sim[OF assms(1)]
proof (elim disjE exE)
  assume "sim s s'"
  then show ?thesis using assms(2,3) sim_length sim_fields(4) by simp
next
  fix j w src assume "s' = setpoint s j w src"
  then show ?thesis using assms(2,3) by (simp add: length_setpoint failed_setpoint)
next
  fix g j w assume "s' = snd (record_failed g s j w)"
  then show ?thesis using assms(2,3) by (auto simp: length_record_failed failed_record_failed)
qed

lemma not_available_if_failed:
  assumes "cache_ok s" and "i < length (points s)" and "v \<in> failed (points s ! i)"
  shows "v \<notin> avl s i"
proof (cases "val (points s ! i) = 0")
  case True
  then show ?thesis using cache_ok_avl[OF assms(1,2)] fresh_range[of s "points s ! i"] assms(3) by auto
next
  case False
  then show ?thesis using cache_ok_avl_set[OF assms(1,2)] by simp
qed

lemma later_keeps_failed:
  assumes "board_op\<^sup>*\<^sup>* s0 s'" and "cache_ok s0" and "i < length (points s0)"
    and "v \<in> failed (points s0 ! i)"
  shows "cache_ok s' \<and> length (points s') = length (points s0) \<and> v \<in> failed (points s' ! i)"
  using assms
proof (induction rule: rtranclp_induct)
  case base
  then show ?case by simp
next
  case (step y z)
  then show ?case using board_op_cache_ok[of y z] board_op_keeps_failed[of y z i v] by simp
qed

text \<open>What the recorded failure does to the available values of its cell.\<close>

lemma used_record_failed:
  assumes "i < length (points s)"
  shows "used (snd (record_failed g s i v)) (points (snd (record_failed g s i v)) ! i)
           = insert v (used s (points s ! i))"
proof -
  let ?y = "(points s ! i)\<lparr>failed := insert v (failed (points s ! i))\<rparr>"
  let ?s1 = "s\<lparr>points := (points s)[i := ?y]\<rparr>"
  have s': "snd (record_failed g s i v) = clearcache ?s1" by (simp add: record_failed_def)
  have m: "map (\<lambda>q. (row q, col q, val q)) (points ?s1) = map (\<lambda>q. (row q, col q, val q)) (points s)"
    by (simp add: list_eq_iff_nth_eq nth_update_if)
  have r: "onrow ?s1 p = onrow s p" for p
  proof -
    have "onrow t p = (\<lambda>(r, c, v). v) ` {x \<in> set (map (\<lambda>q. (row q, col q, val q)) (points t)). (case x of (r, c, v) \<Rightarrow> v \<noteq> 0 \<and> r = row p)}" for t
      by (force simp: onrow_def)
    then show ?thesis by (simp only: m)
  qed
  have c: "oncol ?s1 p = oncol s p" for p
  proof -
    have "oncol t p = (\<lambda>(r, c, v). v) ` {x \<in> set (map (\<lambda>q. (row q, col q, val q)) (points t)). (case x of (r, c, v) \<Rightarrow> v \<noteq> 0 \<and> c = col p)}" for t
      by (force simp: oncol_def)
    then show ?thesis by (simp only: m)
  qed
  have b: "in3x3 ?s1 p = in3x3 s p" for p
  proof -
    have "in3x3 t p = (\<lambda>(r, c, v). v) ` {x \<in> set (map (\<lambda>q. (row q, col q, val q)) (points t)).
             (case x of (r, c, v) \<Rightarrow> v \<noteq> 0 \<and> r div 3 = row p div 3 \<and> c div 3 = col p div 3)}" for t
      by (force simp: in3x3_def bigrow_def bigcol_def)
    then show ?thesis by (simp only: m)
  qed
  have p: "points (clearcache ?s1) ! i = ?y\<lparr>available_cache := {}\<rparr>"
    using assms by (simp add: clearcache_points)
  have "used (clearcache ?s1) (points (clearcache ?s1) ! i) = used ?s1 ?y"
    unfolding p using used_cc[of "clearcache ?s1" ?s1] clearcache_idem[of ?s1]
    by (simp add: used_def onrow_def oncol_def in3x3_def bigrow_def bigcol_def)
  also have "\<dots> = insert v (used s (points s ! i))"
    using r[of ?y] c[of ?y] b[of ?y] onrow_cong[of ?y "points s ! i" s] oncol_cong[of ?y "points s ! i" s]
      in3x3_cong[of ?y "points s ! i" s]
    by (simp add: used_def)
  finally show ?thesis unfolding s' .
qed

lemma avl_record_failed:
  assumes "cache_ok s" and "i < length (points s)" and "val (points s ! i) = 0"
  shows "avl (snd (record_failed g s i v)) i = avl s i - {v}"
proof -
  let ?s' = "snd (record_failed g s i v)"
  have i': "i < length (points ?s')" using assms(2) by (simp add: length_record_failed)
  have v': "val (points ?s' ! i) = 0" using assms(2,3) by (simp add: val_record_failed)
  have "avl ?s' i = fresh ?s' (points ?s' ! i)"
    by (rule cache_ok_avl[OF record_failed_cache_ok i' v'])
  also have "\<dots> = fresh s (points s ! i) - {v}"
    unfolding fresh_def used_record_failed[OF assms(2)] by auto
  finally show ?thesis using cache_ok_avl[OF assms] by simp
qed

lemma known_cond_Nil:
  assumes "todo_of s = []"
  shows "known_cond ded s = Inr (False, snd (todo s))"
  unfolding known_cond_def by (subst todo_pair) (simp add: assms)

section \<open>Properties of the board\<close>

lemma reachable_grid: "reachable s \<Longrightarrow> grid s"
proof (induction rule: reachable.induct)
  case (reach_new sp nm)
  show ?case using Sudoku_board_ok by (simp add: board_ok_def)
next
  case (reach_op s s')
  then show ?case
    using board_op_cases_sim[of s s'] sim_grid grid_setpoint grid_record_failed by blast
qed

text \<open>
  Claim C2. On a board built by the constructor and changed through the board's own
  operations only, \<open>available\<close> returns for an unset cell the set 1 to 9 without the
  values of its row, its column and its block and without its failed values, as a
  computation from the values alone gives it; and \<open>setpoint\<close> and the recording of a
  failure leave every cache of the board empty.
\<close>

theorem available_matches_recomputation:
  assumes "reachable s" and "i < length (points s)" and "val (points s ! i) = 0"
  shows "fst (available s i) =
           {1..9} - ({val q |q. q \<in> set (points s) \<and> val q \<noteq> 0 \<and> row q = row (points s ! i)}
                   \<union> {val q |q. q \<in> set (points s) \<and> val q \<noteq> 0 \<and> col q = col (points s ! i)}
                   \<union> {val q |q. q \<in> set (points s) \<and> val q \<noteq> 0 \<and>
                          row q div 3 = row (points s ! i) div 3 \<and> col q div 3 = col (points s ! i) div 3}
                   \<union> failed (points s ! i)) \<and>
         (\<forall>j v src. \<forall>p\<in>set (points (setpoint s j v src)). available_cache p = {}) \<and>
         (\<forall>g j v. \<forall>p\<in>set (points (snd (record_failed g s j v))). available_cache p = {})"
proof -
  have "avl s i = fresh s (points s ! i)"
    by (rule cache_ok_avl[OF reachable_cache_ok[OF assms(1)] assms(2,3)])
  then show ?thesis
    unfolding fresh_explicit using setpoint_all_empty record_failed_all_empty
    by (simp add: avl_def)
qed

theorem available_matches_recomputation_witness:
  "reachable tried_board \<and> 3 < length (points tried_board) \<and> val (points tried_board ! 3) = 0 \<and>
   fst (available tried_board 3) = {1, 2, 6, 8, 9} \<and>
   fst (available tried_board 3) =
           {1..9} - ({val q |q. q \<in> set (points tried_board) \<and> val q \<noteq> 0 \<and> row q = row (points tried_board ! 3)}
                   \<union> {val q |q. q \<in> set (points tried_board) \<and> val q \<noteq> 0 \<and> col q = col (points tried_board ! 3)}
                   \<union> {val q |q. q \<in> set (points tried_board) \<and> val q \<noteq> 0 \<and>
                          row q div 3 = row (points tried_board ! 3) div 3 \<and> col q div 3 = col (points tried_board ! 3) div 3}
                   \<union> failed (points tried_board ! 3))"
proof -
  let ?s0 = "Sudoku ''53'' ''w''"
  let ?s1 = "snd (available ?s0 2)"
  let ?s2 = "setpoint ?s1 2 4 ''=''"
  have l0: "length (points ?s0) = 81" by (rule Sudoku_length)
  have r0: "reachable ?s0" by (rule reach_new)
  have r1: "reachable ?s1" by (rule reach_op[OF r0 op_available]) (simp add: l0)
  have l1: "length (points ?s1) = 81" using sim_length[OF available_sim[of 2 ?s0]] l0 by simp
  have r2: "reachable ?s2" by (rule reach_op[OF r1 op_setpoint]) (simp add: l1)
  have l2: "length (points ?s2) = 81" using l1 by (simp add: length_setpoint)
  have r: "reachable tried_board" unfolding tried_board_def by (rule reach_op[OF r2 op_failed]) (simp add: l2)
  have l: "3 < length (points tried_board)" unfolding tried_board_def using l2 by (simp add: length_record_failed)
  have v: "val (points tried_board ! 3) = 0" by code_simp
  have a: "fst (available tried_board 3) = {1, 2, 6, 8, 9}" by code_simp
  note n = conjunct1[OF available_matches_recomputation[OF r l v]]
  show ?thesis by (intro conjI r l v a n)
qed

text \<open>
  Claim C4. After \<open>failed(cell, v)\<close> on a board, \<open>available(cell)\<close> does not contain
  \<open>v\<close> on any board that follows by any sequence of queries, assignments, further
  failures and deep copies.
\<close>

theorem failed_value_never_available:
  assumes "i < length (points s)" and "rtranclp board_op (snd (record_failed g s i v)) s'"
  shows "v \<notin> fst (available s' i)"
proof -
  let ?s0 = "snd (record_failed g s i v)"
  have "cache_ok ?s0" by (rule record_failed_cache_ok)
  moreover have "i < length (points ?s0)" using assms(1) by (simp add: length_record_failed)
  moreover have "v \<in> failed (points ?s0 ! i)" using assms(1) by (simp add: failed_record_failed)
  ultimately have "cache_ok s' \<and> length (points s') = length (points ?s0) \<and> v \<in> failed (points s' ! i)"
    by (rule later_keeps_failed[OF assms(2)])
  then show ?thesis
    using not_available_if_failed[of s' i v] assms(1) by (simp add: length_record_failed avl_def)
qed

theorem failed_value_never_available_witness:
  "0 < length (points (Sudoku [] ''w'')) \<and>
   rtranclp board_op (snd (record_failed G0 (Sudoku [] ''w'') 0 5)) failed_five_later \<and>
   5 \<notin> fst (available failed_five_later 0) \<and> fst (available failed_five_later 0) = {1, 3, 4, 6, 8, 9}"
proof -
  have l0: "0 < length (points (Sudoku [] ''w''))" by (simp add: Sudoku_length)
  let ?a = "deepcopy failed_five"
  let ?b = "setpoint ?a 1 7 ''a''"
  have la: "length (points ?a) = 81"
    by (simp add: deepcopy_def failed_five_def length_record_failed Sudoku_length)
  have lb: "length (points ?b) = 81" using la by (simp add: length_setpoint)
  have 1: "board_op failed_five ?a" by (rule op_deepcopy)
  have 2: "board_op ?a ?b" by (rule op_setpoint) (use la in simp)
  have 3: "board_op ?b failed_five_later" unfolding failed_five_later_def by (rule op_failed) (use lb in simp)
  have p: "rtranclp board_op (snd (record_failed G0 (Sudoku [] ''w'') 0 5)) failed_five_later"
  proof -
    have "rtranclp board_op failed_five (deepcopy failed_five)" using 1 by (rule r_into_rtranclp)
    then have "rtranclp board_op failed_five (setpoint (deepcopy failed_five) 1 7 ''a'')"
      using 2 by (rule rtranclp.rtrancl_into_rtrancl)
    then have "rtranclp board_op failed_five failed_five_later"
      using 3 by (rule rtranclp.rtrancl_into_rtrancl)
    then show ?thesis unfolding failed_five_def .
  qed
  have e: "fst (available failed_five_later 0) = {1, 3, 4, 6, 8, 9}" by code_simp
  note n = failed_value_never_available[OF l0 p]
  show ?thesis by (intro conjI l0 p n e)
qed

text \<open>
  Claim C3. On a reachable board, the loop of \<open>deduce\<close> for the cell \<open>i\<close> collects in
  \<open>deducerow\<close> the available sets of the other unset cells of the row of \<open>i\<close> and in
  \<open>deducecol\<close> those of the other unset cells of its column; no cell is in both. The
  result is \<open>A - deducerow\<close> when that set has one element, else \<open>A - deducecol\<close> when that
  set has one element, else the empty set, with \<open>A\<close> the available set of \<open>i\<close>.
\<close>

theorem deduce_row_then_column:
  assumes "reachable s" and "i < length (points s)"
  shows "let A = fst (available s i);
             rowcells = {j. j < length (points s) \<and> j \<noteq> i \<and> val (points s ! j) = 0 \<and>
                            row (points s ! j) = row (points s ! i)};
             colcells = {j. j < length (points s) \<and> j \<noteq> i \<and> val (points s ! j) = 0 \<and>
                            col (points s ! j) = col (points s ! i)};
             deduce_row = (\<Union>j\<in>rowcells. fst (available s j));
             deduce_col = (\<Union>j\<in>colcells. fst (available s j))
         in fst (deduce_loop s i [0..<length (points s)] {} {}) = deduce_row \<and>
            fst (snd (deduce_loop s i [0..<length (points s)] {} {})) = deduce_col \<and>
            rowcells \<inter> colcells = {} \<and>
            fst (deduce s i) =
              (if card (A - deduce_row) = 1 then A - deduce_row
               else if card (A - deduce_col) = 1 then A - deduce_col else {})"
proof -
  have pd: "pos_distinct s" by (rule grid_pos_distinct[OF reachable_grid[OF assms(1)]])
  let ?R = "{j. j < length (points s) \<and> j \<noteq> i \<and> val (points s ! j) = 0 \<and>
                            row (points s ! j) = row (points s ! i)}"
  let ?C = "{j. j < length (points s) \<and> j \<noteq> i \<and> val (points s ! j) = 0 \<and>
                            col (points s ! j) = col (points s ! i)}"
  have r: "deducerow_of s i = (\<Union>j\<in>?R. avl s j)" by (auto simp: deducerow_of_def)
  have c: "deducecol_of s i = (\<Union>j\<in>?C. avl s j)" by (auto simp: deducecol_of_def)
  have disj: "?R \<inter> ?C = {}" using pos_distinct_rowcol[OF pd _ assms(2)] by auto
  note sp = deduce_loop_spec[OF pd assms(2) upt_bound, of "{}" "{}"]
  have lr: "fst (deduce_loop s i [0..<length (points s)] {} {}) = (\<Union>j\<in>?R. avl s j)"
    using sp by auto
  have "{j \<in> set [0..<length (points s)]. j \<noteq> i \<and> val (points s ! j) = 0 \<and>
            row (points s ! j) \<noteq> row (points s ! i) \<and> col (points s ! j) = col (points s ! i)} = ?C"
    using pos_distinct_rowcol[OF pd _ assms(2)] by auto
  then have lc: "fst (snd (deduce_loop s i [0..<length (points s)] {} {})) = (\<Union>j\<in>?C. avl s j)"
    using sp by simp
  have d: "fst (deduce s i) =
      (if card (avl s i - (\<Union>j\<in>?R. avl s j)) = 1 then avl s i - (\<Union>j\<in>?R. avl s j)
       else if card (avl s i - (\<Union>j\<in>?C. avl s j)) = 1 then avl s i - (\<Union>j\<in>?C. avl s j) else {})"
    using deduce_spec[OF pd assms(2)] unfolding deduce_of_def r c .
  show ?thesis unfolding Let_def available_fst using lr lc disj d by (intro conjI)
qed

theorem deduce_row_then_column_witness:
  "reachable three_blanks \<and> 0 < length (points three_blanks) \<and>
   fst (deduce three_blanks 0) = {1} \<and> fst (available three_blanks 0) = {1, 2} \<and>
   (let A = fst (available three_blanks 0);
        rowcells = {j. j < length (points three_blanks) \<and> j \<noteq> 0 \<and> val (points three_blanks ! j) = 0 \<and>
                            row (points three_blanks ! j) = row (points three_blanks ! 0)};
        colcells = {j. j < length (points three_blanks) \<and> j \<noteq> 0 \<and> val (points three_blanks ! j) = 0 \<and>
                            col (points three_blanks ! j) = col (points three_blanks ! 0)};
        deduce_row = (\<Union>j\<in>rowcells. fst (available three_blanks j));
        deduce_col = (\<Union>j\<in>colcells. fst (available three_blanks j))
    in fst (deduce_loop three_blanks 0 [0..<length (points three_blanks)] {} {}) = deduce_row \<and>
       fst (snd (deduce_loop three_blanks 0 [0..<length (points three_blanks)] {} {})) = deduce_col \<and>
       rowcells \<inter> colcells = {} \<and>
       fst (deduce three_blanks 0) =
              (if card (A - deduce_row) = 1 then A - deduce_row
               else if card (A - deduce_col) = 1 then A - deduce_col else {}))"
proof -
  have r: "reachable three_blanks" unfolding three_blanks_def by (rule reach_new)
  have l: "0 < length (points three_blanks)" by (simp add: three_blanks_def Sudoku_length)
  have d: "fst (deduce three_blanks 0) = {1}" by code_simp
  have a: "fst (available three_blanks 0) = {1, 2}" by code_simp
  note n = deduce_row_then_column[OF r l]
  show ?thesis by (intro conjI r l d a n)
qed

text \<open>
  Claim C7. \<open>todo\<close> returns the unset cells and no other, each once, in ascending order of
  the size of their available sets; the cells of any one size keep their order on the
  board.
\<close>

theorem todo_sorted_stable:
  "set (fst (todo s)) = {i. i < length (points s) \<and> val (points s ! i) = 0} \<and>
   distinct (fst (todo s)) \<and>
   sorted (map (\<lambda>i. card (fst (available s i))) (fst (todo s))) \<and>
   (\<forall>k. filter (\<lambda>i. card (fst (available s i)) = k) (fst (todo s))
        = filter (\<lambda>i. val (points s ! i) = 0 \<and> card (fst (available s i)) = k) [0..<length (points s)])"
proof -
  have t: "fst (todo s) = sort_key (\<lambda>i. card (avl s i)) (unset_cells s)"
    using todo_fst by (simp add: todo_of_def)
  have d: "distinct (unset_cells s)" by (simp add: unset_cells_def)
  have "filter (\<lambda>i. card (avl s i) = k) (sort_key (\<lambda>i. card (avl s i)) (unset_cells s))
        = filter (\<lambda>i. val (points s ! i) = 0 \<and> card (avl s i) = k) [0..<length (points s)]" for k
    unfolding sort_key_stable by (simp add: unset_cells_def conj_commute)
  then show ?thesis
    unfolding t available_fst using d by (auto simp: unset_cells_iff sorted_sort_key)
qed

theorem todo_sorted_stable_witness:
  "fst (todo three_blanks) = [1, 36, 0] \<and>
   map (\<lambda>i. card (fst (available three_blanks i))) [1, 36, 0] = [1, 1, 2] \<and>
   set (fst (todo three_blanks)) = {i. i < length (points three_blanks) \<and> val (points three_blanks ! i) = 0} \<and>
   sorted (map (\<lambda>i. card (fst (available three_blanks i))) (fst (todo three_blanks)))"
proof -
  have a: "fst (todo three_blanks) = [1, 36, 0]" by code_simp
  have b: "map (\<lambda>i. card (fst (available three_blanks i))) [1, 36, 0] = [1, 1, 2]" by code_simp
  note n = todo_sorted_stable[of three_blanks]
  show ?thesis by (intro conjI a b conjunct1[OF n] conjunct1[OF conjunct2[OF conjunct2[OF n]]])
qed

section \<open>Properties of the solver\<close>

lemma todo_full:
  assumes "unset_count s = 0"
  shows "todo s = ([], s)"
proof -
  have "length (unset_cells s) = 0" using assms by (simp add: unset_cells_count)
  then have "filter (\<lambda>i. val (points s ! i) = 0) [0..<length (points s)] = []"
    by (simp add: unset_cells_def)
  then show ?thesis by (simp add: todo_def)
qed

lemma solve_full_exact:
  assumes "unset_count s = 0"
  shows "solve ord ded g s level =
           Inr (True, g\<lparr>maxlevel := max (maxlevel g) level, stdout := stdout g @ [s]\<rparr>, s)"
proof -
  have n: "todo_of s = []" using assms todo_of_Nil by simp
  have t: "snd (todo s) = s" using todo_full[OF assms] by simp
  let ?g1 = "g\<lparr>maxlevel := max (maxlevel g) level\<rparr>"
  have e: "solve_entry ord ded g s level = Inr (?g1, s)"
    unfolding solve_entry_def by (subst known_values_unfold) (simp add: known_cond_Nil[OF n] t)
  have "search ord ded ?g1 s level = Inr (True, ?g1\<lparr>stdout := stdout ?g1 @ [s]\<rparr>, s)"
    by (subst search_unfold) (simp add: n t)
  then show ?thesis using e by (simp add: solve_def)
qed

lemma all_ones_val: "p \<in> set (points all_ones) \<Longrightarrow> val p = 1"
proof -
  assume "p \<in> set (points all_ones)"
  then obtain i where i: "i < 81" "p = points all_ones ! i"
    by (auto simp: in_set_conv_nth all_ones_def Sudoku_length)
  then show "val p = 1" by (simp add: all_ones_def Sudoku_nth cell_value_def)
qed

text \<open>
  Claim C1 fails as it is stated. The starting string of 81 characters \<open>1\<close> gives a board
  with no unset cell: neither loop of \<open>solve\<close> runs, the board is displayed and \<open>solve\<close>
  returns \<open>True\<close>, and no row of that board holds a 2.
\<close>

theorem solve_reports_invalid_board:
  "solve Min True G0 all_ones 0 =
     Inr (True, G0\<lparr>maxlevel := max (maxlevel G0) 0, stdout := stdout G0 @ [all_ones]\<rparr>, all_ones) \<and>
   \<not> solved all_ones"
proof -
  have u: "unset_count all_ones = 0"
    using all_ones_val by (auto simp: unset_count_def filter_empty_conv)
  have "filter (\<lambda>p. row p = 0 \<and> val p = 2) (points all_ones) = []"
    using all_ones_val by (auto simp: filter_empty_conv)
  then have "length (filter (\<lambda>p. row p = 0 \<and> val p = 2) (points all_ones)) \<noteq> 1" by simp
  then have "\<not> solved all_ones" unfolding solved_def by fastforce
  then show ?thesis using solve_full_exact[OF u] by simp
qed

text \<open>
  Claim C1, amended. The constructor does not check the starting string, and \<open>solve\<close>
  only ever writes a value that is available at its cell. So the claim holds when the
  values of the board that \<open>solve\<close> receives do not repeat in a row, a column or a block
  (\<open>consistent\<close>), on a board of the solver (\<open>board_ok\<close>, which every constructed board
  is): when \<open>solve\<close> returns \<open>True\<close>, it has displayed exactly one board, every cell of
  that board has a value from 1 to 9, and each row, column and block holds each of the
  values 1 to 9 exactly once.
\<close>

theorem solve_reports_solved_board:
  assumes "board_ok s" and "consistent s" and "solve ord ded g s level = Inr (True, g', s')"
  shows "\<exists>b. stdout g' = stdout g @ [b] \<and> solved b"
proof -
  from solve_props[OF assms(1), of ord ded g level] assms(3)
  have "outcome_ok g s level (True, g', s')" by auto
  then obtain b where b: "stdout g' = stdout g @ [b]" "board_ok b" "unset_count b = 0" "consistent b"
    using assms(2) by (auto simp: outcome_ok_def)
  then show ?thesis using board_solved[of b] by blast
qed

theorem solve_reports_solved_board_witness:
  "board_ok one_blank \<and> consistent one_blank \<and>
   (\<exists>g' s' b. solve Min True G0 one_blank 0 = Inr (True, g', s') \<and> stdout g' = stdout G0 @ [b] \<and> solved b)"
proof -
  have ok: "board_ok one_blank" unfolding one_blank_def by (rule Sudoku_board_ok)
  have c: "consistent one_blank" by code_simp
  have "case solve Min True G0 one_blank 0 of Inl e \<Rightarrow> False | Inr (ok, g, s) \<Rightarrow> ok" by code_simp
  then obtain g' s' where r: "solve Min True G0 one_blank 0 = Inr (True, g', s')"
    by (auto split: sum.splits)
  from solve_reports_solved_board[OF ok c r] obtain b where
    "stdout g' = stdout G0 @ [b] \<and> solved b" by blast
  then have "\<exists>g' s' b. solve Min True G0 one_blank 0 = Inr (True, g', s') \<and> stdout g' = stdout G0 @ [b] \<and> solved b"
    using r by blast
  then show ?thesis using ok c by (intro conjI)
qed

text \<open>
  Claim C6 fails on the code: the string of tags is \<open>abcedfghijk\<close>, with \<open>e\<close> before
  \<open>d\<close>. A guess at a cell with three failed values is tagged \<open>e\<close>, one at a cell with
  four failed values \<open>d\<close>; the other nine positions are in alphabetical order. On the
  empty board with the failures 1, 2 and 3 recorded at its first cell, that cell is the
  first of \<open>todo\<close> and the guess writes the tag \<open>e\<close>.
\<close>

theorem guess_tag_fourth_and_fifth:
  "guess_tag 3 = Inr ''e'' \<and> guess_tag 4 = Inr ''d'' \<and>
   map guess_tag [0, 1, 2, 5, 6, 7, 8, 9, 10]
     = [Inr ''a'', Inr ''b'', Inr ''c'', Inr ''f'', Inr ''g'', Inr ''h'', Inr ''i'', Inr ''j'', Inr ''k''] \<and>
   card (failed (points three_failed ! 0)) = 3 \<and>
   (case guess G0 three_failed 4 of Inl e \<Rightarrow> False | Inr (g, nextlevel) \<Rightarrow> source (points nextlevel ! 0) = ''e'')"
proof -
  have a: "guess_tag 3 = Inr ''e''" by (simp add: guess_tag_def)
  have b: "guess_tag 4 = Inr ''d''" by (simp add: guess_tag_def)
  have c: "map guess_tag [0, 1, 2, 5, 6, 7, 8, 9, 10]
     = [Inr ''a'', Inr ''b'', Inr ''c'', Inr ''f'', Inr ''g'', Inr ''h'', Inr ''i'', Inr ''j'', Inr ''k'']"
    by (simp add: guess_tag_def)
  have d: "card (failed (points three_failed ! 0)) = 3" by code_simp
  have e: "case guess G0 three_failed 4 of Inl e \<Rightarrow> False | Inr (g, nextlevel) \<Rightarrow> source (points nextlevel ! 0) = ''e''"
    by code_simp
  show ?thesis by (intro conjI a b c d e)
qed

lemma search_iteration:
  assumes ok: "board_ok s" and ne: "todo_of s \<noteq> []" and av: "avl s (hd (todo_of s)) \<noteq> {}"
  shows "\<exists>tag use r. use \<in> avl s (hd (todo_of s)) \<and>
           solve ord ded (g\<lparr>guesses := guesses g + 1\<rparr>) (setpoint s (hd (todo_of s)) use tag) (level + 1) = Inr r \<and>
           (case r of (found, g3, n3) \<Rightarrow>
              if found then \<exists>s'. search ord ded g s level = Inr (True, g3, s')
              else search ord ded g s level =
                     search ord ded (g3\<lparr>fails := fails g3 + 1\<rparr>) (snd (record_failed g3 s (hd (todo_of s)) use)) level \<and>
                   avl (snd (record_failed g3 s (hd (todo_of s)) use)) (hd (todo_of s)) \<subset> avl s (hd (todo_of s)))"
proof -
  let ?t = "hd (todo_of s)"
  let ?use = "chosen ord (avl s ?t)"
  have t: "?t < length (points s)" and tv: "val (points s ! ?t) = 0" by (rule hd_todo_of[OF ne])+
  note co = board_ok_cache_ok[OF ok]
  note r = cache_ok_avl_range[OF co t tv]
  have um: "?use \<in> avl s ?t" by (rule chosen_mem[OF r(2) av])
  have u19: "?use \<in> {1..9}" using um r(1) by blast
  from guess_tag_ok[OF board_ok_failed[OF ok t]] obtain tag where
    tag: "guess_tag (card (failed (points s ! ?t))) = Inr tag" by blast
  have okn: "board_ok (setpoint s ?t ?use tag)" by (rule board_ok_setpoint[OF ok u19])
  from solve_props[OF okn, of ord ded "g\<lparr>guesses := guesses g + 1\<rparr>" "level + 1"] obtain found g3 n3 where
    so: "solve ord ded (g\<lparr>guesses := guesses g + 1\<rparr>) (setpoint s ?t ?use tag) (level + 1) = Inr (found, g3, n3)"
    by (metis prod_cases3)
  have shrink: "avl (snd (record_failed g3 s ?t ?use)) ?t \<subset> avl s ?t"
    unfolding avl_record_failed[OF co t tv] using um by auto
  have "if found then \<exists>s'. search ord ded g s level = Inr (True, g3, s')
        else search ord ded g s level =
               search ord ded (g3\<lparr>fails := fails g3 + 1\<rparr>) (snd (record_failed g3 s ?t ?use)) level \<and>
             avl (snd (record_failed g3 s ?t ?use)) ?t \<subset> avl s ?t"
  proof (cases found)
    case True
    have "search ord ded g s level = Inr (True, g3, looked s)"
      by (subst search_unfold) (simp add: ne av tag so True)
    then show ?thesis using True by simp
  next
    case False
    have "search ord ded g s level =
            search ord ded (g3\<lparr>fails := fails g3 + 1\<rparr>) (snd (record_failed g3 s ?t ?use)) level"
      by (subst search_unfold) (simp add: ne av tag so False)
    then show ?thesis using False shrink by simp
  qed
  then show ?thesis using um so by (intro exI[of _ tag] exI[of _ ?use] exI[of _ "(found, g3, n3)"]) simp
qed

lemma search_dead_end:
  assumes ne: "todo_of s \<noteq> []" and av: "avl s (hd (todo_of s)) = {}"
  shows "search ord ded g s level = Inr (False, g, looked s)" and "clearcache (looked s) = clearcache s"
proof -
  show "search ord ded g s level = Inr (False, g, looked s)"
    by (subst search_unfold) (simp add: ne av)
  show "clearcache (looked s) = clearcache s" by (rule sim_cc[OF search_step_facts(4)[OF ne]])
qed

lemma search_done:
  assumes "todo_of s = []"
  shows "search ord ded g s level = Inr (True, g\<lparr>stdout := stdout g @ [snd (todo s)]\<rparr>, snd (todo s))"
  by (subst search_unfold) (simp add: assms)

lemma board_ok_unset_le: "board_ok s \<Longrightarrow> unset_count s \<le> 81"
  using unset_count_le[of s] grid_length[of s] by (simp add: board_ok_def)

lemma retry_search:
  assumes "retry ord ded level g s = Some (g4, s4)"
  shows "search ord ded g s level = search ord ded g4 s4 level"
  using assms
  apply (subst search.simps)
  apply (auto simp: retry_def solve_def split: prod.splits if_splits sum.splits)
  done

lemma retries_search:
  "retries ord ded level n g s = Some (gk, sk) \<Longrightarrow> search ord ded g s level = search ord ded gk sk level"
proof (induction n arbitrary: gk sk)
  case 0
  then show ?case by simp
next
  case (Suc n)
  then obtain gj sj where j: "retries ord ded level n g s = Some (gj, sj)" "retry ord ded level gj sj = Some (gk, sk)"
    by (auto split: option.splits)
  show ?case using Suc.IH[OF j(1)] retry_search[OF j(2)] by simp
qed

lemma reachable_failures:
  "reachable s \<Longrightarrow> i < length (points s) \<Longrightarrow> reachable (fold (\<lambda>v b. snd (record_failed g b i v)) vs s)"
proof (induction vs arbitrary: s)
  case Nil
  then show ?case by simp
next
  case (Cons v vs)
  have r: "reachable (snd (record_failed g s i v))"
    by (rule reach_op[OF Cons.prems(1) op_failed[OF Cons.prems(2)]])
  have l: "i < length (points (snd (record_failed g s i v)))"
    using Cons.prems(2) by (simp add: length_record_failed)
  show ?case using Cons.IH[OF r l] by simp
qed

text \<open>
  Claim C5 fails as it is stated, for every board: \<open>failed\<close> accepts any value, and the
  tag of a guess is read from a string of 11 characters at the number of failed values of
  the guessed cell. The board \<open>rectangle\<close> is a consistent puzzle with four unset cells of
  two available values each; on \<open>eleven\<close>, which is \<open>rectangle\<close> after \<open>failed\<close> has
  recorded the values 10 to 20 at the cell of row 6 and column 0, that cell is the first
  of \<open>todo\<close>, still has the available values 4 and 5, and has 11 failed values: the call
  of \<open>solve\<close> ends in \<open>IndexError\<close> at its first guess and returns no boolean.
\<close>

theorem solve_raises_IndexError:
  "reachable eleven \<and> consistent eleven \<and>
   fst (todo eleven) = [54, 62, 63, 71] \<and> fst (available eleven 54) = {4, 5} \<and>
   card (failed (points eleven ! 54)) = 11 \<and>
   solve Min True G0 eleven 0 = Inl IndexError"
proof -
  have r: "reachable eleven"
    unfolding eleven_def rectangle_def by (rule reachable_failures[OF reach_new]) (simp add: Sudoku_length)
  have c: "consistent eleven" by code_simp
  have t: "fst (todo eleven) = [54, 62, 63, 71]" by code_simp
  have a: "fst (available eleven 54) = {4, 5}" by code_simp
  have f: "card (failed (points eleven ! 54)) = 11" by code_simp
  have s: "solve Min True G0 eleven 0 = Inl IndexError" by code_simp
  show ?thesis by (intro conjI r c t a f s)
qed

text \<open>
  Claim C5, amended. The model of \<open>solve\<close> is a total function: it is defined by
  recursion with a termination proof for every board, on the work left (the unset cells
  and the values not yet failed at them). On a board of the solver (\<open>board_ok\<close>: the
  failed values of every cell are among 1 to 9, as on every constructed board and on
  every board that \<open>solve\<close> itself produces), \<open>solve\<close> returns a boolean and raises
  nothing; the level it reaches is at most the level of the call plus the number of unset
  cells, which is at most 81; and an iteration of the second loop finds no unset cell and
  succeeds, or finds no available value and returns \<open>False\<close>, or guesses: then it returns
  \<open>True\<close> when the recursive call does, and otherwise goes on with the board on which
  the failure is recorded, where the available set of the chosen cell is a proper subset
  of what it was. On the board \<open>stuck\<close>, five unset cells with the available values 4 and
  5 each, three of them in one block, the first guess and the second both fail after two
  known values each, at level 1, and the call returns \<open>False\<close>.
\<close>

theorem solve_terminates:
  assumes "board_ok s"
  shows "(\<exists>found g' s'. solve ord ded g s level = Inr (found, g', s') \<and>
            maxlevel g' \<le> max (maxlevel g) (level + int (unset_count s))) \<and>
         unset_count s \<le> 81 \<and>
         (\<exists>r. solve ord ded g (Sudoku sp nm) level = Inr r) \<and>
         (if fst (todo s) = [] then \<exists>g' s'. search ord ded g s level = Inr (True, g', s')
          else if fst (available s (hd (fst (todo s)))) = {}
          then \<exists>s'. search ord ded g s level = Inr (False, g, s')
          else \<exists>tag use r. use \<in> fst (available s (hd (fst (todo s)))) \<and>
                 solve ord ded (g\<lparr>guesses := guesses g + 1\<rparr>) (setpoint s (hd (fst (todo s))) use tag) (level + 1) = Inr r \<and>
                 (case r of (found, g3, n3) \<Rightarrow>
                    if found then \<exists>s'. search ord ded g s level = Inr (True, g3, s')
                    else search ord ded g s level =
                           search ord ded (g3\<lparr>fails := fails g3 + 1\<rparr>)
                             (snd (record_failed g3 s (hd (fst (todo s))) use)) level \<and>
                         fst (available (snd (record_failed g3 s (hd (fst (todo s))) use)) (hd (fst (todo s))))
                           \<subset> fst (available s (hd (fst (todo s))))))"
proof -
  from solve_props[OF assms, of ord ded g level] obtain found g' s' where
    "solve ord ded g s level = Inr (found, g', s')" "outcome_ok g s level (found, g', s')"
    by (metis prod_cases3)
  then have a: "\<exists>found g' s'. solve ord ded g s level = Inr (found, g', s') \<and>
            maxlevel g' \<le> max (maxlevel g) (level + int (unset_count s))"
    by (auto simp: outcome_ok_def)
  have b: "unset_count s \<le> 81" by (rule board_ok_unset_le[OF assms])
  have c: "\<exists>r. solve ord ded g (Sudoku sp nm) level = Inr r"
    using solve_props[OF Sudoku_board_ok, of ord ded g sp nm level] by blast
  have d: "if todo_of s = [] then \<exists>g' s'. search ord ded g s level = Inr (True, g', s')
          else if avl s (hd (todo_of s)) = {}
          then \<exists>s'. search ord ded g s level = Inr (False, g, s')
          else \<exists>tag use r. use \<in> avl s (hd (todo_of s)) \<and>
                 solve ord ded (g\<lparr>guesses := guesses g + 1\<rparr>) (setpoint s (hd (todo_of s)) use tag) (level + 1) = Inr r \<and>
                 (case r of (found, g3, n3) \<Rightarrow>
                    if found then \<exists>s'. search ord ded g s level = Inr (True, g3, s')
                    else search ord ded g s level =
                           search ord ded (g3\<lparr>fails := fails g3 + 1\<rparr>)
                             (snd (record_failed g3 s (hd (todo_of s)) use)) level \<and>
                         avl (snd (record_failed g3 s (hd (todo_of s)) use)) (hd (todo_of s))
                           \<subset> avl s (hd (todo_of s)))"
  proof (cases "todo_of s = []")
    case True
    then show ?thesis using search_done[OF True, of ord ded g level] by simp
  next
    case ne: False
    show ?thesis
    proof (cases "avl s (hd (todo_of s)) = {}")
      case True
      then show ?thesis using ne search_dead_end(1)[OF ne True, of ord ded g level] by simp
    next
      case False
      then show ?thesis using ne search_iteration[OF assms ne False, of ord ded g level] by simp
    qed
  qed
  show ?thesis unfolding todo_fst available_fst using a b c d by (intro conjI)
qed

theorem solve_terminates_witness:
  "board_ok stuck \<and> unset_count stuck = 5 \<and>
   fst (todo stuck) = [54, 62, 63, 64, 71] \<and> fst (available stuck (hd (fst (todo stuck)))) = {4, 5} \<and>
   (\<exists>found g' s'. solve Min True G0 stuck 0 = Inr (found, g', s') \<and>
            maxlevel g' \<le> max (maxlevel G0) (0 + int (unset_count stuck))) \<and>
   (\<exists>tag use r. use \<in> fst (available stuck (hd (fst (todo stuck)))) \<and>
          solve Min True (G0\<lparr>guesses := guesses G0 + 1\<rparr>) (setpoint stuck (hd (fst (todo stuck))) use tag) (0 + 1) = Inr r \<and>
          (case r of (found, g3, n3) \<Rightarrow>
             if found then \<exists>s'. search Min True G0 stuck 0 = Inr (True, g3, s')
             else search Min True G0 stuck 0 =
                    search Min True (g3\<lparr>fails := fails g3 + 1\<rparr>)
                      (snd (record_failed g3 stuck (hd (fst (todo stuck))) use)) 0 \<and>
                  fst (available (snd (record_failed g3 stuck (hd (fst (todo stuck))) use)) (hd (fst (todo stuck))))
                    \<subset> fst (available stuck (hd (fst (todo stuck)))))) \<and>
   (case solve Min True G0 stuck 0 of Inl e \<Rightarrow> False
    | Inr (found, g', s') \<Rightarrow>
        \<not> found \<and> thinks g' = 4 \<and> guesses g' = 2 \<and> fails g' = 2 \<and> maxlevel g' = 1 \<and> stdout g' = [])"
proof -
  have ok: "board_ok stuck" unfolding stuck_def by (rule Sudoku_board_ok)
  have u: "unset_count stuck = 5" by code_simp
  have t: "fst (todo stuck) = [54, 62, 63, 64, 71]" by code_simp
  have a: "fst (available stuck (hd (fst (todo stuck)))) = {4, 5}" by code_simp
  have tn: "fst (todo stuck) \<noteq> []" unfolding t by simp
  have an: "fst (available stuck (hd (fst (todo stuck)))) \<noteq> {}" unfolding a by simp
  note n = solve_terminates[OF ok, of Min True G0 0 "[]" "[]"]
  note i = conjunct2[OF conjunct2[OF conjunct2[OF n]]]
  note j = i[unfolded if_not_P[OF tn] if_not_P[OF an]]
  have c: "case solve Min True G0 stuck 0 of Inl e \<Rightarrow> False
    | Inr (found, g', s') \<Rightarrow>
        \<not> found \<and> thinks g' = 4 \<and> guesses g' = 2 \<and> fails g' = 2 \<and> maxlevel g' = 1 \<and> stdout g' = []"
    by code_simp
  show ?thesis by (intro conjI ok u t a conjunct1[OF n] j c)
qed

text \<open>
  Claim C9. When the first cell of \<open>todo\<close> has no available value, the second loop
  returns \<open>False\<close> at once: the class variables are as they were, so no guess was counted
  and no failure recorded, and the board differs from the board of the call in its caches
  only. So does \<open>solve\<close>: when its first loop has ended (\<open>solve_entry\<close>) and its second
  loop, at its first iteration or after any number of failed guesses (\<open>retries\<close>), finds
  the first cell of \<open>todo\<close> without an available value, the call of \<open>solve\<close> returns
  \<open>False\<close> with the class variables and, but for the caches, the board of that
  iteration. On a board of the solver a call of \<open>solve\<close> never ends in an exception: it
  returns a boolean. The board \<open>dead_end\<close> is consistent and its two unset cells have no
  available value: \<open>solve\<close> returns \<open>False\<close> and counts nothing. On the board \<open>stuck\<close>
  the dead end of the call comes after two failed guesses.
\<close>

theorem dead_end_returns_False:
  "(fst (todo s) \<noteq> [] \<and> fst (available s (hd (fst (todo s)))) = {} \<longrightarrow>
      (\<exists>s'. search ord ded g s level = Inr (False, g, s') \<and> clearcache s' = clearcache s)) \<and>
   (\<forall>n g1 s1 gk sk.
      solve_entry ord ded g s level = Inr (g1, s1) \<and> retries ord ded level n g1 s1 = Some (gk, sk) \<and>
      fst (todo sk) \<noteq> [] \<and> fst (available sk (hd (fst (todo sk)))) = {} \<longrightarrow>
      (\<exists>s'. solve ord ded g s level = Inr (False, gk, s') \<and> clearcache s' = clearcache sk)) \<and>
   (board_ok s \<longrightarrow>
      (\<exists>r. search ord ded g s level = Inr r) \<and> (\<exists>r. solve ord ded g s level = Inr r))"
proof -
  have a: "\<exists>s'. search ord ded g s level = Inr (False, g, s') \<and> clearcache s' = clearcache s"
    if "fst (todo s) \<noteq> [] \<and> fst (available s (hd (fst (todo s)))) = {}"
    using that search_dead_end(1)[of s ord ded g level] search_dead_end(2)[of s]
    unfolding todo_fst available_fst by blast
  have c: "\<exists>s'. solve ord ded g s level = Inr (False, gk, s') \<and> clearcache s' = clearcache sk"
    if e: "solve_entry ord ded g s level = Inr (g1, s1)" and r: "retries ord ded level n g1 s1 = Some (gk, sk)"
      and t: "fst (todo sk) \<noteq> []" and v: "fst (available sk (hd (fst (todo sk)))) = {}"
    for n g1 s1 gk sk
  proof -
    have ne: "todo_of sk \<noteq> []" using t by (simp add: todo_fst)
    have av: "avl sk (hd (todo_of sk)) = {}" using v by (simp add: todo_fst available_fst)
    have "solve ord ded g s level = search ord ded g1 s1 level" using e by (simp add: solve_def)
    also have "\<dots> = search ord ded gk sk level" by (rule retries_search[OF r])
    also have "\<dots> = Inr (False, gk, looked sk)" by (rule search_dead_end(1)[OF ne av])
    finally show ?thesis using search_dead_end(2)[OF ne av] by blast
  qed
  have b: "(\<exists>r. search ord ded g s level = Inr r) \<and> (\<exists>r. solve ord ded g s level = Inr r)"
    if "board_ok s"
    using search_props[OF that, of ord ded g level] solve_props[OF that, of ord ded g level] by blast
  show ?thesis using a b c by blast
qed

theorem dead_end_returns_False_witness:
  "fst (todo dead_end) = [0, 46] \<and> fst (available dead_end (hd (fst (todo dead_end)))) = {} \<and>
   board_ok dead_end \<and> consistent dead_end \<and>
   (\<exists>s'. search Min True G0 dead_end 0 = Inr (False, G0, s') \<and> clearcache s' = clearcache dead_end) \<and>
   (\<exists>s'. solve Min True G0 dead_end 0 = Inr (False, G0, s') \<and> clearcache s' = clearcache dead_end) \<and>
   (\<exists>g1 s1 gk sk s'.
      solve_entry Min True G0 stuck 0 = Inr (g1, s1) \<and> retries Min True 0 2 g1 s1 = Some (gk, sk) \<and>
      fst (todo sk) \<noteq> [] \<and> fst (available sk (hd (fst (todo sk)))) = {} \<and>
      guesses gk = 2 \<and> fails gk = 2 \<and>
      solve Min True G0 stuck 0 = Inr (False, gk, s') \<and> clearcache s' = clearcache sk)"
proof -
  have t: "fst (todo dead_end) = [0, 46]" by code_simp
  have tn: "fst (todo dead_end) \<noteq> []" unfolding t by simp
  have a: "fst (available dead_end (hd (fst (todo dead_end)))) = {}" by code_simp
  have ok: "board_ok dead_end" unfolding dead_end_def by (rule Sudoku_board_ok)
  have co: "consistent dead_end" by code_simp
  note n = dead_end_returns_False[of dead_end Min True G0 0]
  have 1: "\<exists>s'. search Min True G0 dead_end 0 = Inr (False, G0, s') \<and> clearcache s' = clearcache dead_end"
    using conjunct1[OF n] tn a by (rule_tac mp) simp_all
  have "case solve_entry Min True G0 dead_end 0 of Inl e \<Rightarrow> False
        | Inr (g1, s1) \<Rightarrow> g1 = G0 \<and> clearcache s1 = clearcache dead_end \<and>
            fst (todo s1) \<noteq> [] \<and> fst (available s1 (hd (fst (todo s1)))) = {}"
    by code_simp
  then obtain s1 where e: "solve_entry Min True G0 dead_end 0 = Inr (G0, s1)"
    and e1: "clearcache s1 = clearcache dead_end"
    and e2: "fst (todo s1) \<noteq> []" and e3: "fst (available s1 (hd (fst (todo s1)))) = {}"
    by (auto split: sum.splits)
  have r0: "retries Min True 0 0 G0 s1 = Some (G0, s1)" by simp
  from conjunct1[OF conjunct2[OF n]] e r0 e2 e3
  have "\<exists>s'. solve Min True G0 dead_end 0 = Inr (False, G0, s') \<and> clearcache s' = clearcache s1" by blast
  then have 2: "\<exists>s'. solve Min True G0 dead_end 0 = Inr (False, G0, s') \<and> clearcache s' = clearcache dead_end"
    using e1 by simp
  have "case solve_entry Min True G0 stuck 0 of Inl e \<Rightarrow> False
        | Inr (g1, s1) \<Rightarrow>
            (case retries Min True 0 2 g1 s1 of None \<Rightarrow> False
             | Some (gk, sk) \<Rightarrow> fst (todo sk) \<noteq> [] \<and> fst (available sk (hd (fst (todo sk)))) = {} \<and>
                 guesses gk = 2 \<and> fails gk = 2)"
    by code_simp
  then obtain g1 s1' gk sk where f: "solve_entry Min True G0 stuck 0 = Inr (g1, s1')"
    and r: "retries Min True 0 2 g1 s1' = Some (gk, sk)"
    and k1: "fst (todo sk) \<noteq> []" and k2: "fst (available sk (hd (fst (todo sk)))) = {}"
    and k3: "guesses gk = 2" and k4: "fails gk = 2"
    by (auto split: sum.splits option.splits)
  note m = dead_end_returns_False[of stuck Min True G0 0]
  from conjunct1[OF conjunct2[OF m]] f r k1 k2
  obtain s' where "solve Min True G0 stuck 0 = Inr (False, gk, s')" "clearcache s' = clearcache sk" by blast
  then have 3: "\<exists>g1 s1 gk sk s'.
      solve_entry Min True G0 stuck 0 = Inr (g1, s1) \<and> retries Min True 0 2 g1 s1 = Some (gk, sk) \<and>
      fst (todo sk) \<noteq> [] \<and> fst (available sk (hd (fst (todo sk)))) = {} \<and>
      guesses gk = 2 \<and> fails gk = 2 \<and>
      solve Min True G0 stuck 0 = Inr (False, gk, s') \<and> clearcache s' = clearcache sk"
    using f r k1 k2 k3 k4 by blast
  show ?thesis by (intro conjI t a ok co 1 2 3)
qed

end
